theory Spec2Isabelle
  imports Main "HOL-Library.Sublist"
begin

section \<open>Strings of the content script\<close>

text \<open>
  A JavaScript string is modelled as a \<^typ>\<open>string\<close>, one \<^typ>\<open>char\<close> per
  code unit, so the model speaks about texts whose code units lie in the 8-bit range.
  \<open>String.prototype.toLowerCase\<close> is modelled on the ASCII letters; a character outside
  ASCII is neither a word character of a regular expression nor equal to a character of
  the fixed word lists, so its case mapping never decides a match.
\<close>

definition isUpperAscii :: "char \<Rightarrow> bool" where
  "isUpperAscii c = (65 \<le> (of_char c :: nat) \<and> (of_char c :: nat) \<le> 90)"

definition isLowerAscii :: "char \<Rightarrow> bool" where
  "isLowerAscii c = (97 \<le> (of_char c :: nat) \<and> (of_char c :: nat) \<le> 122)"

definition isDigitAscii :: "char \<Rightarrow> bool" where
  "isDigitAscii c = (48 \<le> (of_char c :: nat) \<and> (of_char c :: nat) \<le> 57)"

definition toLowerChar :: "char \<Rightarrow> char" where
  "toLowerChar c = (if isUpperAscii c then char_of ((of_char c :: nat) + 32) else c)"

definition toLowerCase :: "string \<Rightarrow> string" where
  "toLowerCase s = map toLowerChar s"

text \<open>White space as \<open>String.prototype.trim\<close> sees it, in the 8-bit range:
  TAB, LF, VT, FF, CR, SPACE and NBSP.\<close>

definition isWhiteSpace :: "char \<Rightarrow> bool" where
  "isWhiteSpace c = ((9 \<le> (of_char c :: nat) \<and> (of_char c :: nat) \<le> 13)
     \<or> (of_char c :: nat) = 32 \<or> (of_char c :: nat) = 160)"

definition trim :: "string \<Rightarrow> string" where
  "trim s = rev (dropWhile isWhiteSpace (rev (dropWhile isWhiteSpace s)))"

text \<open>\<open>String.prototype.includes\<close>: the argument occurs as a contiguous substring.\<close>

fun includesStr :: "string \<Rightarrow> string \<Rightarrow> bool" where
  "includesStr [] w = (w = [])"
| "includesStr (c # cs) w = (take (length w) (c # cs) = w \<or> includesStr cs w)"

subsection \<open>The regular expression \<open>\bword\b\<close> with the flag \<open>i\<close>\<close>

text \<open>
  The fallback builds \<open>new RegExp(`\\b${word}\\b`, 'i')\<close> from words made of letters and
  spaces, so the pattern is the literal word between two word-boundary assertions.
  \<open>\w\<close> is \<open>[A-Za-z0-9_]\<close>; \<open>\b\<close> holds at a position when exactly one of the two
  neighbours is a word character; under the flag \<open>i\<close> two characters match when their
  canonical (upper-case) forms agree.
\<close>

definition isWordChar :: "char \<Rightarrow> bool" where
  "isWordChar c = (isDigitAscii c \<or> isUpperAscii c \<or> (of_char c :: nat) = 95 \<or> isLowerAscii c)"

definition canonicalize :: "char \<Rightarrow> char" where
  "canonicalize c = (if isLowerAscii c then char_of ((of_char c :: nat) - 32) else c)"

definition isWordBoundary :: "string \<Rightarrow> nat \<Rightarrow> bool" where
  "isWordBoundary s i =
     ((0 < i \<and> isWordChar (s ! (i - 1))) \<noteq> (i < length s \<and> isWordChar (s ! i)))"

definition matchesAt :: "string \<Rightarrow> string \<Rightarrow> nat \<Rightarrow> bool" where
  "matchesAt w s i =
     (isWordBoundary s i \<and> i + length w \<le> length s
      \<and> map canonicalize (take (length w) (drop i s)) = map canonicalize w
      \<and> isWordBoundary s (i + length w))"

text \<open>\<open>regex.test(s)\<close>: the pattern matches at some start position of \<open>s\<close>.\<close>

definition wordRegexTest :: "string \<Rightarrow> string \<Rightarrow> bool" where
  "wordRegexTest w s = list_ex (matchesAt w s) [0 ..< Suc (length s)]"


section \<open>The document\<close>

text \<open>
  The page is a forest of nodes: \<open>document\<close> is the child list of the Document node.
  An element carries the properties the content script reads or writes. Object identity
  of a DOM element is its \<open>nodeId\<close>; an element is connected exactly when a node with its
  identity occurs in the forest. \<open>rectTop\<close> and \<open>rectLeft\<close> are the values
  \<open>getBoundingClientRect\<close> reports; layout is static in this model. \<open>src\<close> is the
  property \<open>img.src\<close>: the \<open>src\<close> attribute as the browser resolves it against the address
  of the page, and the empty string for an element without that attribute.
\<close>

record elem =
  nodeId :: nat
  tagName :: string
  classList :: "string list"
  attributes :: "(string \<times> string) list"
  src :: string
  style :: "(string \<times> string) list"
  complete :: bool
  naturalWidth :: nat
  naturalHeight :: nat
  width :: nat
  height :: nat
  rectTop :: int
  rectLeft :: int

datatype node = Element elem "node list" | TextNode string

fun textOf :: "node list \<Rightarrow> string" where
  "textOf [] = []"
| "textOf (TextNode t # ns) = t @ textOf ns"
| "textOf (Element e ks # ns) = textOf ks @ textOf ns"

fun textContent :: "node \<Rightarrow> string" where
  "textContent (Element e ks) = textOf ks"
| "textContent (TextNode t) = t"

fun setTextContent :: "string \<Rightarrow> node \<Rightarrow> node" where
  "setTextContent t (Element e ks) = Element e (if t = [] then [] else [TextNode t])"
| "setTextContent t (TextNode u) = TextNode t"

fun onElem :: "(elem \<Rightarrow> elem) \<Rightarrow> node \<Rightarrow> node" where
  "onElem f (Element e ks) = Element (f e) ks"
| "onElem f (TextNode t) = TextNode t"

fun allElems :: "node list \<Rightarrow> elem list" where
  "allElems [] = []"
| "allElems (TextNode t # ns) = allElems ns"
| "allElems (Element e ks # ns) = e # allElems ks @ allElems ns"

definition allIds :: "node list \<Rightarrow> nat list" where
  "allIds doc = map nodeId (allElems doc)"

text \<open>\<open>document.querySelectorAll(selector)\<close>: the static list of the matching elements,
  in document order, each named by its identity.\<close>

definition querySelectorAll :: "(elem \<Rightarrow> bool) \<Rightarrow> node list \<Rightarrow> nat list" where
  "querySelectorAll sel doc = map nodeId (filter sel (allElems doc))"

fun findNode :: "nat \<Rightarrow> node list \<Rightarrow> node option" where
  "findNode i [] = None"
| "findNode i (TextNode t # ns) = findNode i ns"
| "findNode i (Element e ks # ns) =
     (if nodeId e = i then Some (Element e ks)
      else (case findNode i ks of Some n \<Rightarrow> Some n | None \<Rightarrow> findNode i ns))"

definition isConnected :: "nat \<Rightarrow> node list \<Rightarrow> bool" where
  "isConnected i doc = (findNode i doc \<noteq> None)"

text \<open>An in-place change of the element \<open>i\<close> (its properties or its own children).\<close>

fun updateNode :: "nat \<Rightarrow> (node \<Rightarrow> node) \<Rightarrow> node list \<Rightarrow> node list" where
  "updateNode i g [] = []"
| "updateNode i g (TextNode t # ns) = TextNode t # updateNode i g ns"
| "updateNode i g (Element e ks # ns) =
     (if nodeId e = i then g (Element e ks) else Element e (updateNode i g ks))
       # updateNode i g ns"

text \<open>Removing every element that satisfies \<open>P\<close> from its parent, with its subtree.\<close>

fun removeNodes :: "(elem \<Rightarrow> bool) \<Rightarrow> node list \<Rightarrow> node list" where
  "removeNodes P [] = []"
| "removeNodes P (TextNode t # ns) = TextNode t # removeNodes P ns"
| "removeNodes P (Element e ks # ns) =
     (if P e then removeNodes P ns else Element e (removeNodes P ks) # removeNodes P ns)"

text \<open>\<open>el.parentNode.removeChild(el)\<close> for the element \<open>i\<close>.\<close>

definition removeChild :: "nat \<Rightarrow> node list \<Rightarrow> node list" where
  "removeChild i doc = removeNodes (\<lambda>e. nodeId e = i) doc"

text \<open>The new node becomes the next sibling of the element \<open>i\<close>:
  \<open>insertBefore(new, element.nextSibling)\<close>, or \<open>appendChild(new)\<close> for a last child.\<close>

fun insertAfter :: "nat \<Rightarrow> node \<Rightarrow> node list \<Rightarrow> node list" where
  "insertAfter i new [] = []"
| "insertAfter i new (TextNode t # ns) = TextNode t # insertAfter i new ns"
| "insertAfter i new (Element e ks # ns) =
     (if nodeId e = i then Element e ks # new # ns
      else Element e (insertAfter i new ks) # insertAfter i new ns)"

fun isElementWithId :: "nat \<Rightarrow> node \<Rightarrow> bool" where
  "isElementWithId i (Element e ks) = (nodeId e = i)"
| "isElementWithId i (TextNode t) = False"

text \<open>\<open>el.parentNode\<close> when it is an element; \<open>None\<close> for a child of the Document node
  (which has no class list) and for an element that is not connected.\<close>

fun parentOf :: "nat \<Rightarrow> node list \<Rightarrow> elem option" where
  "parentOf i [] = None"
| "parentOf i (TextNode t # ns) = parentOf i ns"
| "parentOf i (Element e ks # ns) =
     (if list_ex (isElementWithId i) ks then Some e
      else (case parentOf i ks of Some p \<Rightarrow> Some p | None \<Rightarrow> parentOf i ns))"

fun replaceNode :: "nat \<Rightarrow> node \<Rightarrow> node list \<Rightarrow> node list" where
  "replaceNode w new [] = []"
| "replaceNode w new (TextNode t # ns) = TextNode t # replaceNode w new ns"
| "replaceNode w new (Element e ks # ns) =
     (if nodeId e = w then new # ns
      else Element e (replaceNode w new ks) # replaceNode w new ns)"

text \<open>An identity above every identity on the page.\<close>

definition freshId :: "node list \<Rightarrow> nat" where
  "freshId doc = Suc (fold max (allIds doc) 0)"

subsection \<open>Attributes, classes and inline style\<close>

fun assocSet :: "string \<Rightarrow> string \<Rightarrow> (string \<times> string) list \<Rightarrow> (string \<times> string) list" where
  "assocSet k v [] = [(k, v)]"
| "assocSet k v (p # ps) = (if fst p = k then (k, v) # ps else p # assocSet k v ps)"

definition assocDel :: "string \<Rightarrow> (string \<times> string) list \<Rightarrow> (string \<times> string) list" where
  "assocDel k ps = filter (\<lambda>p. fst p \<noteq> k) ps"

definition getAttribute :: "string \<Rightarrow> elem \<Rightarrow> string option" where
  "getAttribute k e = map_of (attributes e) k"

definition setAttribute :: "string \<Rightarrow> string \<Rightarrow> elem \<Rightarrow> elem" where
  "setAttribute k v e = e\<lparr>attributes := assocSet k v (attributes e)\<rparr>"

definition removeAttribute :: "string \<Rightarrow> elem \<Rightarrow> elem" where
  "removeAttribute k e = e\<lparr>attributes := assocDel k (attributes e)\<rparr>"

definition hasClass :: "string \<Rightarrow> elem \<Rightarrow> bool" where
  "hasClass c e = (c \<in> set (classList e))"

definition classListAdd :: "string \<Rightarrow> elem \<Rightarrow> elem" where
  "classListAdd c e = (if c \<in> set (classList e) then e else e\<lparr>classList := classList e @ [c]\<rparr>)"

definition classListRemove :: "string \<Rightarrow> elem \<Rightarrow> elem" where
  "classListRemove c e = e\<lparr>classList := filter (\<lambda>x. x \<noteq> c) (classList e)\<rparr>"

text \<open>\<open>el.style.prop = value\<close>; assigning the empty string removes the declaration.\<close>

definition setStyle :: "string \<Rightarrow> string \<Rightarrow> elem \<Rightarrow> elem" where
  "setStyle k v e =
     (if v = [] then e\<lparr>style := assocDel k (style e)\<rparr> else e\<lparr>style := assocSet k v (style e)\<rparr>)"

text \<open>A JavaScript string is truthy when it is present and not empty.\<close>

fun truthy :: "string option \<Rightarrow> bool" where
  "truthy None = False"
| "truthy (Some v) = (v \<noteq> [])"


section \<open>Pipeline state\<close>

text \<open>
  The globals of the content script, gathered in one record, together with the page and
  what the event loop holds for the pipeline: the promise groups handed to
  \<open>Promise.allSettled\<close> whose callback has not run yet (\<open>batches\<close>), the delays of the
  pending \<open>setTimeout(processNextBatch, delay)\<close> calls (\<open>timers\<close>), the scans of the images
  that wait for the timer of their next part (\<open>scans\<close>), and the number of health-check
  requests that have not settled (\<open>pendingPings\<close>). \<open>nextNodeId\<close> is where
  \<open>document.createElement\<close> takes identities from: it only grows, so an element created
  by the script is distinct from every element created before it, on the page or not.
\<close>

record queue_item =
  itemType :: string
  element :: nat
  priority :: "string option"

datatype process_result =
    Skipped string
  | Filtered string "string list"
  | Kept
  | Failed

datatype pending = FetchText nat string | ImageWork nat

datatype promise = Pending pending | Fulfilled "process_result option" | Rejected

record verdict =
  action :: string
  reasons :: "string list"

text \<open>What the \<open>await\<close> of the analysis request yields: a parsed response, or an exception
  (the request was rejected or the body was not JSON).\<close>

datatype fetch_outcome = Response verdict | RequestFailed

text \<open>A scan of a list of images that has reached the index given and waits for its timer:
  \<open>processBatch\<close> of \<open>scanImagesForModeration\<close>, and \<open>processImageBatch\<close> of
  \<open>applyImmediateBlurToAllImages\<close>. The list names the images by identity; an image that
  has left the page when its part of the scan runs is passed over, the properties of such
  an element not being kept in this model.\<close>

datatype scan = ProcessBatch "nat list" nat | ProcessImageBatch "nat list" nat

record pipeline =
  isEnabled :: bool
  backendRunning :: bool
  currentlyProcessing :: bool
  processingQueue :: "queue_item list"
  textElementsProcessed :: "nat list"
  imageElementsProcessed :: "nat list"
  document :: "node list"
  pageUrl :: string
  batches :: "promise list list"
  timers :: "nat list"
  scans :: "scan list"
  pendingPings :: nat
  nextNodeId :: nat

text \<open>Modelled from the spec: the declarations of the constants \<open>BATCH_SIZE\<close>,
  \<open>BATCH_DELAY\<close>, \<open>EXCLUSION_CLASS\<close> and \<open>INDICATOR_CLASS\<close> are missing from the source. The
  spec gives the batch size as 10 and the delay between batches as fixed; the values are
  those of the \<open>config\<close> object of the content script (\<open>batchSize\<close>, \<open>queueInterval\<close>,
  \<open>classes.processed\<close>, \<open>classes.indicator\<close>).\<close>

definition BATCH_SIZE :: nat where
  "BATCH_SIZE = 10"

definition BATCH_DELAY :: nat where
  "BATCH_DELAY = 200"

definition EXCLUSION_CLASS :: string where
  "EXCLUSION_CLASS = ''socioio-processed''"

definition INDICATOR_CLASS :: string where
  "INDICATOR_CLASS = ''socioio-indicator''"

text \<open>The state after the content script has loaded: the \<open>state\<close> object of the source.
  Every element created later has an identity above those of the page as loaded.\<close>

definition initialState :: "node list \<Rightarrow> pipeline" where
  "initialState doc =
     \<lparr>isEnabled = True, backendRunning = True, currentlyProcessing = False,
      processingQueue = [], textElementsProcessed = [], imageElementsProcessed = [],
      document = doc, pageUrl = [], batches = [], timers = [], scans = [],
      pendingPings = 0, nextNodeId = freshId doc\<rparr>"

text \<open>The identity of the next element that \<open>document.createElement\<close> returns: the
  counter, or the first identity above the page where the page holds a higher one.\<close>

definition newNodeId :: "pipeline \<Rightarrow> nat" where
  "newNodeId s = max (nextNodeId s) (freshId (document s))"

section \<open>Text moderation\<close>

subsection \<open>addModerationIndicator\<close>

definition near :: "elem \<Rightarrow> int \<times> int \<Rightarrow> bool" where
  "near x r = (\<bar>rectTop x - fst r\<bar> < 30 \<and> \<bar>rectLeft x - snd r\<bar> < 30)"

definition blankElem :: "nat \<Rightarrow> string \<Rightarrow> int \<times> int \<Rightarrow> elem" where
  "blankElem i tag r =
     \<lparr>nodeId = i, tagName = tag, classList = [], attributes = [], src = [], style = [],
      complete = False, naturalWidth = 0, naturalHeight = 0, width = 0, height = 0,
      rectTop = fst r, rectLeft = snd r\<rparr>"

text \<open>The indicator: a \<open>span\<close> of class \<open>INDICATOR_CLASS\<close> holding the icon, the label and
  the tooltip with the reasons. The icon glyph is written by its name. The three elements
  created take the identities \<open>i\<close>, \<open>i + 1\<close> and \<open>i + 2\<close>.\<close>

definition indicatorNode :: "nat \<Rightarrow> int \<times> int \<Rightarrow> string \<Rightarrow> string list \<Rightarrow> node" where
  "indicatorNode i r act rs =
     Element ((blankElem i ''SPAN'' r)
                \<lparr>classList := [INDICATOR_CLASS],
                 style := [(''display'', ''inline-flex''),
                           (''background-color'',
                              (if act = ''remove'' then ''#4285f4''
                               else if act = ''encrypt'' then ''#0f9d58'' else ''#f4b400'')),
                           (''cursor'', ''pointer''), (''position'', ''relative'')]\<rparr>)
       [TextNode (if act = ''remove'' then ''shield '' else if act = ''encrypt'' then ''lock ''
                  else ''warning ''),
        Element (blankElem (Suc i) ''SPAN'' r) [TextNode ''View''],
        Element ((blankElem (Suc (Suc i)) ''DIV'' r)
                   \<lparr>classList := [''socioio-tooltip''], style := [(''display'', ''none'')]\<rparr>)
          [TextNode (''Content Filtered by Socio.io''
                     @ (if rs \<noteq> [] then ''Filtered for:'' @ concat rs else [])
                     @ ''Click to view original content'')]]"

text \<open>The rectangle of the element; all zero for an element that is not rendered.\<close>

definition rectOf :: "nat \<Rightarrow> node list \<Rightarrow> int \<times> int" where
  "rectOf i doc =
     (case findNode i doc of Some (Element e ks) \<Rightarrow> (rectTop e, rectLeft e) | _ \<Rightarrow> (0, 0))"

text \<open>\<open>addModerationIndicator\<close> on the page, \<open>new\<close> being the identity of the first element
  it creates.\<close>

definition addModerationIndicator ::
  "nat \<Rightarrow> nat \<Rightarrow> string \<Rightarrow> string list \<Rightarrow> node list \<Rightarrow> node list" where
  "addModerationIndicator new i act rs doc =
     (let r = rectOf i doc;
          doc1 = removeNodes (\<lambda>x. hasClass INDICATOR_CLASS x \<and> near x r) doc
      in insertAfter i (indicatorNode new r act rs) doc1)"

subsection \<open>The local fallback of processTextElement\<close>

definition profanityWords :: "string list" where
  "profanityWords = [''fuck'', ''shit'', ''asshole'']"

definition hateWords :: "string list" where
  "hateWords = [''nigger'', ''faggot'', ''kill all'']"

definition isProfanity :: "string \<Rightarrow> bool" where
  "isProfanity lowerText = list_ex (\<lambda>word. wordRegexTest word lowerText) profanityWords"

definition isHateSpeech :: "string \<Rightarrow> bool" where
  "isHateSpeech lowerText = list_ex (\<lambda>word. wordRegexTest word lowerText) hateWords"

definition fallbackReasons :: "string \<Rightarrow> string list" where
  "fallbackReasons lowerText =
     (if isProfanity lowerText then [''Profanity detected''] else [])
     @ (if isHateSpeech lowerText then [''Hate speech detected''] else [])"

subsection \<open>processTextElement\<close>

text \<open>
  The function runs in two turns of the event loop. \<open>processTextElement_start\<close> is the part
  before \<open>await fetch\<close>: it returns a result at once (\<open>Inl\<close>), or it has saved the text on
  the element and sent the request (\<open>Inr\<close> of the text sent). \<open>processTextElement_resume\<close>
  is the continuation once the request has settled; \<open>text\<close> is the value captured by
  the first part. The statistics message and the debug log are not part of the model.
\<close>

definition processTextElement_start ::
  "nat \<Rightarrow> pipeline \<Rightarrow> pipeline \<times> (process_result + string)" where
  "processTextElement_start i s =
     (case findNode i (document s) of
        None \<Rightarrow> (s, Inl (Skipped ''element_not_connected''))
      | Some n \<Rightarrow>
          (let text = trim (textContent n) in
           if text = [] then (s, Inl (Skipped ''no_text''))
           else if length text < 5 then (s, Inl (Skipped ''text_too_short''))
           else (s\<lparr>document :=
                     updateNode i (onElem (setAttribute ''data-original-text'' text)) (document s)\<rparr>,
                 Inr text)))"

definition filteredTextFor :: "string \<Rightarrow> string" where
  "filteredTextFor text =
     (if length text < 30 then ''[Content filtered]''
      else if length text < 100 then
        take 10 text @ ''... [Content filtered] ...'' @ drop (length text - 10) text
      else (let firstSentence = takeWhile (\<lambda>c. c \<noteq> CHR ''.'') text;
                preview = (if 50 < length firstSentence then take 50 firstSentence @ ''...''
                           else firstSentence)
            in preview @ [CHR 0x0A, CHR 0x0A] @ ''[Additional content filtered]''))"

text \<open>What both branches do to an element they filter: the text is replaced, the element
  is marked, and the indicator is added; three elements are created.\<close>

definition applyFilteredText ::
  "nat \<Rightarrow> nat \<Rightarrow> string \<Rightarrow> string list \<Rightarrow> node list \<Rightarrow> node list" where
  "applyFilteredText new i filteredText rs doc =
     addModerationIndicator new i ''remove'' rs
       (updateNode i (onElem (classListAdd ''socioio-filtered-text''))
          (updateNode i (setTextContent filteredText) doc))"

definition filterElement :: "nat \<Rightarrow> string \<Rightarrow> string list \<Rightarrow> pipeline \<Rightarrow> pipeline" where
  "filterElement i filteredText rs s =
     s\<lparr>document := applyFilteredText (newNodeId s) i filteredText rs (document s),
       nextNodeId := newNodeId s + 3\<rparr>"

definition processTextElement_resume ::
  "nat \<Rightarrow> string \<Rightarrow> fetch_outcome \<Rightarrow> pipeline \<Rightarrow> pipeline \<times> process_result" where
  "processTextElement_resume i text outcome s =
     (case outcome of
        Response data \<Rightarrow>
          (if action data \<noteq> ''allow'' \<and> action data = ''remove'' then
             (filterElement i (filteredTextFor text) (reasons data) s,
              Filtered (action data) (reasons data))
           else (s, Kept))
      | RequestFailed \<Rightarrow>
          (let lowerText = toLowerCase text in
           if isProfanity lowerText \<or> isHateSpeech lowerText then
             (filterElement i ''[Content filtered - click indicator to view]''
                (fallbackReasons lowerText) s,
              Filtered ''remove'' (fallbackReasons lowerText))
           else (s, Kept)))"

text \<open>The whole call, given how the request settles.\<close>

definition processTextElement ::
  "nat \<Rightarrow> fetch_outcome \<Rightarrow> pipeline \<Rightarrow> pipeline \<times> process_result" where
  "processTextElement i outcome s =
     (case processTextElement_start i s of
        (s1, Inl r) \<Rightarrow> (s1, r)
      | (s1, Inr text) \<Rightarrow> processTextElement_resume i text outcome s1)"


section \<open>restoreOriginalContent\<close>

text \<open>\<open>document.querySelectorAll(selector).forEach(callback)\<close>: the callback runs on each
  element of the static list, in document order, against the current document.\<close>

definition forEachSelected ::
  "(elem \<Rightarrow> bool) \<Rightarrow> (nat \<Rightarrow> node list \<Rightarrow> node list) \<Rightarrow> node list \<Rightarrow> node list" where
  "forEachSelected sel f doc = fold f (querySelectorAll sel doc) doc"

text \<open>\<open>img[style*="blur"], .socioio-filtered-image, img[data-socioio-filtered="true"]\<close>\<close>

definition isBlurredImage :: "elem \<Rightarrow> bool" where
  "isBlurredImage e =
     ((tagName e = ''IMG''
         \<and> list_ex (\<lambda>d. includesStr (fst d) ''blur'' \<or> includesStr (snd d) ''blur'') (style e))
      \<or> hasClass ''socioio-filtered-image'' e
      \<or> (tagName e = ''IMG'' \<and> getAttribute ''data-socioio-filtered'' e = Some ''true''))"

text \<open>What the image loop does to the image itself. A saved address is written back with
  \<open>img.src = img.dataset.originalSrc\<close>; it is taken to be a full address, which resolves
  to itself.\<close>

definition restoreImageProps :: "elem \<Rightarrow> elem" where
  "restoreImageProps e =
     (let e1 = setStyle ''filter'' ''none'' e;
          e2 = setStyle ''border'' [] e1;
          e3 = classListRemove ''socioio-filtered-image'' e2;
          e4 = removeAttribute ''data-socioio-filtered'' e3
      in (case getAttribute ''data-original-src'' e4 of
            None \<Rightarrow> e4
          | Some v \<Rightarrow>
              (if v = [] then e4
               else removeAttribute ''data-original-src'' ((setAttribute ''src'' v e4)\<lparr>src := v\<rparr>))))"

text \<open>The callback of the image loop. An image whose parent is a wrapper takes the
  wrapper's place: \<open>parent.insertBefore(img, wrapper); parent.removeChild(wrapper)\<close>,
  where \<open>parent\<close> is the wrapper's parent; when that call throws, the \<open>catch\<close> leaves the
  tree as it is.\<close>

definition restoreImage :: "nat \<Rightarrow> node list \<Rightarrow> node list" where
  "restoreImage i doc =
     (let doc1 = updateNode i (onElem restoreImageProps) doc in
      case parentOf i doc1 of
        None \<Rightarrow> doc1
      | Some p \<Rightarrow>
          (if hasClass ''socioio-image-wrapper'' p then
             (case (findNode i doc1, parentOf (nodeId p) doc1) of
                (Some img, Some grandParent) \<Rightarrow> replaceNode (nodeId p) img doc1
              | _ \<Rightarrow> doc1)
           else doc1))"

fun restoreTextNode :: "node \<Rightarrow> node" where
  "restoreTextNode (Element e ks) =
     (let n1 = (case getAttribute ''data-original-text'' e of
                  None \<Rightarrow> Element e ks
                | Some v \<Rightarrow>
                    (if v = [] then Element e ks
                     else onElem (removeAttribute ''data-original-text'')
                            (setTextContent v (Element e ks))))
      in onElem (\<lambda>x. (classListRemove ''socioio-filtered-text'' x)\<lparr>style := []\<rparr>) n1)"
| "restoreTextNode (TextNode t) = TextNode t"

definition isPipelineNode :: "elem \<Rightarrow> bool" where
  "isPipelineNode e =
     (hasClass ''socioio-blocked-image'' e \<or> hasClass ''socioio-image-overlay'' e
      \<or> hasClass ''socioio-image-wrapper'' e \<or> hasClass INDICATOR_CLASS e)"

definition restoreOriginalContent :: "node list \<Rightarrow> node list" where
  "restoreOriginalContent doc =
     (let doc1 = forEachSelected isPipelineNode removeChild doc;
          doc2 = forEachSelected isBlurredImage restoreImage doc1;
          doc3 = forEachSelected (hasClass ''socioio-filtered-text'')
                   (\<lambda>i. updateNode i restoreTextNode) doc2
      in forEachSelected (hasClass ''socioio-overlay'') removeChild doc3)"

section \<open>The batch dispatcher\<close>

text \<open>
  \<open>processElement\<close> up to its first suspension. A text item runs the first part of
  \<open>processTextElement\<close>; its promise is settled at once when that part returns a result,
  and waits for the analysis request otherwise. For an image item that has loaded
  (\<open>complete\<close>) the source calls \<open>processImageElement\<close> at once. No function of that name is
  declared in the source, so the call throws and the \<open>catch\<close> around it rejects the
  promise. An image that has not loaded leaves its promise pending, to be settled by its
  \<open>load\<close> or \<open>error\<close> event or by the timer of five seconds. The properties of an element
  that has left the page are not kept in this model; an image item whose element is not
  on the page is treated as one that has not loaded. An item of any other type resolves
  with no value.
\<close>

definition processElement :: "queue_item \<Rightarrow> pipeline \<Rightarrow> pipeline \<times> promise" where
  "processElement item s =
     (if itemType item = ''text'' then
        (case processTextElement_start (element item) s of
           (s1, Inl r) \<Rightarrow> (s1, Fulfilled (Some r))
         | (s1, Inr text) \<Rightarrow> (s1, Pending (FetchText (element item) text)))
      else if itemType item = ''image'' then
        (case findNode (element item) (document s) of
           Some (Element e ks) \<Rightarrow>
             (if complete e then (s, Rejected) else (s, Pending (ImageWork (element item))))
         | _ \<Rightarrow> (s, Pending (ImageWork (element item))))
      else (s, Fulfilled None))"

text \<open>\<open>batch.map(processElement)\<close>\<close>

fun mapProcessElement :: "queue_item list \<Rightarrow> pipeline \<Rightarrow> pipeline \<times> promise list" where
  "mapProcessElement [] s = (s, [])"
| "mapProcessElement (item # items) s =
     (case processElement item s of
        (s1, p) \<Rightarrow> (case mapProcessElement items s1 of (s2, ps) \<Rightarrow> (s2, p # ps)))"

definition processNextBatch :: "pipeline \<Rightarrow> pipeline" where
  "processNextBatch s =
     (if currentlyProcessing s \<or> length (processingQueue s) = 0 \<or> \<not> isEnabled s then s
      else (let batch = take BATCH_SIZE (processingQueue s);
                s1 = s\<lparr>currentlyProcessing := True,
                       processingQueue := drop BATCH_SIZE (processingQueue s)\<rparr>
            in (case mapProcessElement batch s1 of
                  (s2, promises) \<Rightarrow> s2\<lparr>batches := batches s2 @ [promises]\<rparr>)))"

text \<open>The callback given to \<open>Promise.allSettled(promises).then\<close>.\<close>

definition allSettledCallback :: "pipeline \<Rightarrow> pipeline" where
  "allSettledCallback s =
     (let s1 = s\<lparr>currentlyProcessing := False\<rparr> in
      if 0 < length (processingQueue s1) then s1\<lparr>timers := timers s1 @ [BATCH_DELAY]\<rparr>
      else s1)"

fun isSettled :: "promise \<Rightarrow> bool" where
  "isSettled (Pending w) = False"
| "isSettled (Fulfilled r) = True"
| "isSettled Rejected = True"

section \<open>Image discovery\<close>

definition safeImageSources :: "string list" where
  "safeImageSources =
     [''wikipedia.org'', ''wikimedia.org'', ''github.com'', ''googleusercontent.com/a/'',
      ''gravatar.com'', ''maps.gstatic.com'', ''schema.org'', ''w3.org'', ''placeholder.com'']"

definition sensitiveKeywords :: "string list" where
  "sensitiveKeywords = [''nsfw'', ''adult'', ''xxx'', ''porn'', ''nude'', ''sex'']"

text \<open>\<open>img.alt\<close>: the attribute, or the empty string.\<close>

definition attrOrEmpty :: "string \<Rightarrow> elem \<Rightarrow> string" where
  "attrOrEmpty k e = (case getAttribute k e of None \<Rightarrow> [] | Some v \<Rightarrow> v)"

definition setAdd :: "nat \<Rightarrow> nat list \<Rightarrow> nat list" where
  "setAdd i xs = (if i \<in> set xs then xs else xs @ [i])"

text \<open>The body of the loop of \<open>applyImmediateBlurToAllImages\<close> for one image of its list;
  the image is read in the current document.\<close>

definition queueImageForAnalysis :: "nat \<Rightarrow> pipeline \<Rightarrow> pipeline" where
  "queueImageForAnalysis i s =
     (case findNode i (document s) of
        Some (Element img ks) \<Rightarrow>
          (if naturalWidth img < 50 \<or> naturalHeight img < 50 then s
           else (let srcLower = toLowerCase (src img);
                     alt = toLowerCase (attrOrEmpty ''alt'' img)
                 in if list_ex (\<lambda>source. includesStr srcLower source) safeImageSources then s
                    else if list_ex (\<lambda>keyword. includesStr srcLower keyword \<or> includesStr alt keyword)
                              sensitiveKeywords
                            \<or> list_ex (\<lambda>keyword. includesStr (toLowerCase (pageUrl s)) keyword)
                                 sensitiveKeywords
                    then s\<lparr>processingQueue := processingQueue s
                               @ [\<lparr>itemType = ''image'', element = i, priority = Some ''high''\<rparr>],
                            imageElementsProcessed := setAdd i (imageElementsProcessed s)\<rparr>
                    else if i \<notin> set (imageElementsProcessed s)
                    then s\<lparr>processingQueue := processingQueue s
                               @ [\<lparr>itemType = ''image'', element = i, priority = None\<rparr>],
                            imageElementsProcessed := setAdd i (imageElementsProcessed s)\<rparr>
                    else s))
      | _ \<Rightarrow> s)"

text \<open>\<open>processImageBatch(startIndex)\<close>: ten images of the list are looked at; when images
  are left, the next part waits for its timer, and after the last part the queue is
  dispatched.\<close>

definition processImageBatch :: "nat list \<Rightarrow> nat \<Rightarrow> pipeline \<Rightarrow> pipeline" where
  "processImageBatch images startIndex s =
     (let endIndex = min (startIndex + 10) (length images);
          s1 = fold queueImageForAnalysis (take (endIndex - startIndex) (drop startIndex images)) s
      in if endIndex < length images
         then s1\<lparr>scans := scans s1 @ [ProcessImageBatch images endIndex]\<rparr>
         else if 0 < length (processingQueue s1) then processNextBatch s1 else s1)"

definition applyImmediateBlurToAllImages :: "pipeline \<Rightarrow> pipeline" where
  "applyImmediateBlurToAllImages s =
     processImageBatch (querySelectorAll (\<lambda>e. tagName e = ''IMG'') (document s)) 0 s"

text \<open>The body of the loop of \<open>addImagesToProcessingQueue\<close> for one element of the list
  it was given; the element is read in the current document.\<close>

definition addImageToProcessingQueue :: "nat \<Rightarrow> pipeline \<times> nat \<Rightarrow> pipeline \<times> nat" where
  "addImageToProcessingQueue i acc =
     (case acc of (s, imagesAdded) \<Rightarrow>
        (case findNode i (document s) of
           Some (Element e ks) \<Rightarrow>
             (if src e = [] then (s, imagesAdded)
              else if hasClass EXCLUSION_CLASS e then (s, imagesAdded)
              else (s\<lparr>processingQueue := processingQueue s
                         @ [\<lparr>itemType = ''image'', element = i, priority = None\<rparr>],
                      document := updateNode i (onElem (classListAdd EXCLUSION_CLASS)) (document s)\<rparr>,
                    Suc imagesAdded))
         | _ \<Rightarrow> (s, imagesAdded)))"

definition addImagesToProcessingQueue :: "nat list \<Rightarrow> pipeline \<Rightarrow> pipeline" where
  "addImagesToProcessingQueue images s =
     (case fold addImageToProcessingQueue images (s, 0) of
        (s1, imagesAdded) \<Rightarrow> (if 0 < imagesAdded then processNextBatch s1 else s1))"

text \<open>\<open>processImage\<close> up to the analysis request. The style saved in
  \<open>data-original-style\<close> is the serialised inline style, each declaration written as
  \<open>name: value;\<close> with one blank between two declarations; assigning it back restores the
  declarations it was read from.\<close>

fun serializeStyle :: "(string \<times> string) list \<Rightarrow> string" where
  "serializeStyle [] = []"
| "serializeStyle [d] = fst d @ '': '' @ snd d @ '';''"
| "serializeStyle (d # d' # ds) = fst d @ '': '' @ snd d @ ''; '' @ serializeStyle (d' # ds)"

definition processImage_start :: "nat \<Rightarrow> pipeline \<Rightarrow> pipeline" where
  "processImage_start i s =
     (case findNode i (document s) of
        Some (Element e ks) \<Rightarrow>
          (if hasClass EXCLUSION_CLASS e then s
           else if width e < 100 \<or> height e < 100 then s
           else (let e1 = classListAdd EXCLUSION_CLASS e;
                     e2 = setAttribute ''data-original-style'' (serializeStyle (style e)) e1;
                     e3 = setStyle ''transition'' ''filter 300ms ease'' e2;
                     e4 = setStyle ''border'' ''1px dashed #ccc'' e3;
                     e5 = setAttribute ''data-socioio-analyzing'' ''true'' e4;
                     e6 = (if backendRunning s then e5
                           else removeAttribute ''data-socioio-analyzing'' (e5\<lparr>style := style e\<rparr>))
                 in s\<lparr>document := updateNode i (onElem (\<lambda>x. e6)) (document s)\<rparr>))
      | _ \<Rightarrow> s)"

text \<open>The body of the loop of \<open>scanImagesForModeration\<close> for one image of its list.\<close>

definition scanImage :: "nat \<Rightarrow> pipeline \<Rightarrow> pipeline" where
  "scanImage i s =
     (case findNode i (document s) of
        Some (Element e ks) \<Rightarrow>
          (if complete e \<and> 0 < naturalWidth e then
             (if i \<notin> set (imageElementsProcessed s) then
                (processImage_start i s)
                  \<lparr>imageElementsProcessed := setAdd i (imageElementsProcessed s)\<rparr>
              else s)
           else s)
      | _ \<Rightarrow> s)"

text \<open>\<open>processBatch(startIndex)\<close>: five images of the list are scanned; when images are
  left, the next part waits for its timer, and after the last part the whole list goes to
  \<open>addImagesToProcessingQueue\<close>.\<close>

definition processBatch :: "nat list \<Rightarrow> nat \<Rightarrow> pipeline \<Rightarrow> pipeline" where
  "processBatch images startIndex s =
     (let endIndex = min (startIndex + 5) (length images);
          s1 = fold scanImage (take (endIndex - startIndex) (drop startIndex images)) s
      in if endIndex < length images
         then s1\<lparr>scans := scans s1 @ [ProcessBatch images endIndex]\<rparr>
         else addImagesToProcessingQueue images s1)"

definition scanImagesForModeration :: "pipeline \<Rightarrow> pipeline" where
  "scanImagesForModeration s =
     (if \<not> isEnabled s then s
      else processBatch
             (querySelectorAll (\<lambda>e. tagName e = ''IMG'' \<and> \<not> hasClass EXCLUSION_CLASS e)
                (document s)) 0 s)"

section \<open>Messages and the health check\<close>

text \<open>The handler of \<open>toggleProtection\<close> and \<open>setEnabled\<close>. Switching protection on starts a
  scan, whose discoveries reach the queue as later events; switching it off restores the
  page.\<close>

definition setEnabled :: "bool \<Rightarrow> pipeline \<Rightarrow> pipeline" where
  "setEnabled enabled s =
     (let previousState = isEnabled s; s1 = s\<lparr>isEnabled := enabled\<rparr> in
      if enabled \<and> \<not> previousState then s1
      else if \<not> enabled \<and> previousState
      then s1\<lparr>document := restoreOriginalContent (document s1)\<rparr>
      else s1)"

text \<open>
  \<open>checkBackendStatus\<close> runs in two turns. \<open>checkBackendStatus_start\<close> sets the flag and
  sends the ping; when sending throws, the outer \<open>catch\<close> scans the images in the same turn.
  \<open>checkBackendStatus_resume\<close> is what runs once the ping has settled, given whether it
  was answered with JSON; its second component tells whether \<open>scanContentForModeration\<close>
  is called. That scan hands its finds to timers, which push them later; they reach the
  queue as events of their own.
\<close>

definition checkBackendStatus_start :: "bool \<Rightarrow> pipeline \<Rightarrow> pipeline" where
  "checkBackendStatus_start fetchThrows s =
     (let s1 = s\<lparr>backendRunning := True\<rparr> in
      if fetchThrows then (if isEnabled s1 then scanImagesForModeration s1 else s1)
      else s1\<lparr>pendingPings := Suc (pendingPings s1)\<rparr>)"

definition checkBackendStatus_resume :: "bool \<Rightarrow> pipeline \<Rightarrow> pipeline \<times> bool" where
  "checkBackendStatus_resume pingAnswered s =
     (if pingAnswered then
        (let s2 = s\<lparr>backendRunning := True\<rparr> in
         if isEnabled s2 then
           (let s3 = scanImagesForModeration s2 in (s3, length (processingQueue s3) = 0))
         else (s2, False))
      else (if isEnabled s then (scanImagesForModeration s, False) else (s, False)))"

text \<open>The callback of \<open>notifyBackgroundScript\<close>: the reply of the background script, when
  it comes with a \<open>backendRunning\<close> value, is written to the flag. Like
  \<open>backendStatusChanged\<close> it then calls \<open>scanContentForModeration\<close> when the service runs
  and the pipeline is enabled.\<close>

definition backgroundReply :: "bool option \<Rightarrow> pipeline \<Rightarrow> pipeline" where
  "backgroundReply reply s =
     (case reply of None \<Rightarrow> s | Some running \<Rightarrow> s\<lparr>backendRunning := running\<rparr>)"

section \<open>The event loop\<close>

text \<open>
  One event is one turn of the event loop that touches the pipeline: a discovery pushes a
  candidate, some caller invokes the dispatcher, a timer set by the dispatcher fires, the
  analysis request of a text promise settles, an image of a pending promise loads, fails
  to load or runs into its timer, the callback of \<open>Promise.allSettled\<close> runs (possible only
  once every promise of its group has settled), a message or a reply arrives, a health
  check starts or its ping settles, a scan of the images starts or the timer of its next
  part fires. Events may come in any order; an event that is not possible in the current
  state changes nothing.
\<close>

datatype image_event = ImageLoaded | ImageLoadFailed | ImageLoadTimeout

datatype event =
    Enqueue queue_item
  | CallProcessNextBatch
  | TimerFires nat
  | FetchSettles nat nat fetch_outcome
  | ImageSettles nat nat image_event
  | AllSettled nat
  | ToggleProtection bool
  | BackendStatusChanged bool
  | BackgroundReply "bool option"
  | BackendCheck bool
  | PingSettles bool
  | ScanImages
  | ScanAllImages
  | ScanTimerFires nat

definition removeAt :: "nat \<Rightarrow> 'a list \<Rightarrow> 'a list" where
  "removeAt k xs = take k xs @ drop (Suc k) xs"

definition settlePromise :: "nat \<Rightarrow> nat \<Rightarrow> promise \<Rightarrow> pipeline \<Rightarrow> pipeline" where
  "settlePromise b k p s = s\<lparr>batches := (batches s)[b := (batches s ! b)[k := p]]\<rparr>"

text \<open>What settles the promise of an image that had not loaded when it was dispatched.
  On \<open>load\<close> the handler calls \<open>processImageElement\<close>, which the source does not declare:
  the call throws and the handler rejects the promise. On \<open>error\<close> the promise resolves as
  skipped. The timer resolves it as skipped when the image is still not complete.\<close>

definition settleImage :: "nat \<Rightarrow> nat \<Rightarrow> nat \<Rightarrow> image_event \<Rightarrow> pipeline \<Rightarrow> pipeline" where
  "settleImage b k i ev s =
     (case ev of
        ImageLoaded \<Rightarrow> settlePromise b k Rejected s
      | ImageLoadFailed \<Rightarrow> settlePromise b k (Fulfilled (Some (Skipped ''image_load_failed''))) s
      | ImageLoadTimeout \<Rightarrow>
          (case findNode i (document s) of
             Some (Element e ks) \<Rightarrow>
               (if \<not> complete e
                then settlePromise b k (Fulfilled (Some (Skipped ''image_load_timeout''))) s
                else s)
           | _ \<Rightarrow> settlePromise b k (Fulfilled (Some (Skipped ''image_load_timeout''))) s))"

fun step :: "event \<Rightarrow> pipeline \<Rightarrow> pipeline" where
  "step (Enqueue item) s = s\<lparr>processingQueue := processingQueue s @ [item]\<rparr>"
| "step CallProcessNextBatch s = processNextBatch s"
| "step (TimerFires k) s =
     (if k < length (timers s) then processNextBatch (s\<lparr>timers := removeAt k (timers s)\<rparr>)
      else s)"
| "step (FetchSettles b k outcome) s =
     (if b < length (batches s) \<and> k < length (batches s ! b) then
        (case batches s ! b ! k of
           Pending (FetchText i text) \<Rightarrow>
             (case processTextElement_resume i text outcome s of
                (s1, r) \<Rightarrow> settlePromise b k (Fulfilled (Some r)) s1)
         | _ \<Rightarrow> s)
      else s)"
| "step (ImageSettles b k ev) s =
     (if b < length (batches s) \<and> k < length (batches s ! b) then
        (case batches s ! b ! k of
           Pending (ImageWork i) \<Rightarrow> settleImage b k i ev s
         | _ \<Rightarrow> s)
      else s)"
| "step (AllSettled b) s =
     (if b < length (batches s) \<and> list_all isSettled (batches s ! b)
      then allSettledCallback (s\<lparr>batches := removeAt b (batches s)\<rparr>)
      else s)"
| "step (ToggleProtection enabled) s = setEnabled enabled s"
| "step (BackendStatusChanged running) s = s\<lparr>backendRunning := running\<rparr>"
| "step (BackgroundReply reply) s = backgroundReply reply s"
| "step (BackendCheck fetchThrows) s = checkBackendStatus_start fetchThrows s"
| "step (PingSettles pingAnswered) s =
     (if 0 < pendingPings s
      then fst (checkBackendStatus_resume pingAnswered (s\<lparr>pendingPings := pendingPings s - 1\<rparr>))
      else s)"
| "step ScanImages s = scanImagesForModeration s"
| "step ScanAllImages s = applyImmediateBlurToAllImages s"
| "step (ScanTimerFires k) s =
     (if k < length (scans s) then
        (case scans s ! k of
           ProcessBatch images startIndex \<Rightarrow>
             processBatch images startIndex (s\<lparr>scans := removeAt k (scans s)\<rparr>)
         | ProcessImageBatch images startIndex \<Rightarrow>
             processImageBatch images startIndex (s\<lparr>scans := removeAt k (scans s)\<rparr>))
      else s)"

definition run :: "event list \<Rightarrow> pipeline \<Rightarrow> pipeline" where
  "run es s = fold step es s"

section \<open>Notions of the specification\<close>

text \<open>A whole-word, case-insensitive occurrence of a listed word in a text: the text
  splits around a part that equals the word up to case, with no word character
  directly before or after it.\<close>

definition wholeWordOccurs :: "string \<Rightarrow> string \<Rightarrow> bool" where
  "wholeWordOccurs w text =
     (\<exists>pre mid post. text = pre @ mid @ post \<and> toLowerCase mid = w
        \<and> (pre = [] \<or> \<not> isWordChar (last pre))
        \<and> (post = [] \<or> \<not> isWordChar (hd post)))"

definition plainWord :: "string \<Rightarrow> bool" where
  "plainWord w = (w \<noteq> [] \<and> list_all (\<lambda>c. \<not> isUpperAscii c) w
                  \<and> isWordChar (hd w) \<and> isWordChar (last w))"


text \<open>What the dispatcher reads of the element of an item: its text content and whether
  it has loaded; nothing for an element that is not on the page.\<close>

fun nodeComplete :: "node \<Rightarrow> bool" where
  "nodeComplete (Element e ks) = complete e"
| "nodeComplete (TextNode t) = False"

definition itemView :: "node list \<Rightarrow> nat \<Rightarrow> (string \<times> bool) option" where
  "itemView doc i = map_option (\<lambda>n. (textContent n, nodeComplete n)) (findNode i doc)"

text \<open>Analysis has been invoked for an item of a batch taken on the page \<open>doc\<close>, and \<open>p\<close> is
  its promise. For a text item with at least five characters of trimmed text the request
  for that text is in flight; a text item that is not connected, empty or shorter is
  settled as skipped without a request. For an image item that has loaded the call of
  the image analysis has been made (and has thrown, there being no such function in the
  source); one that has not loaded waits for its image. An item of another type is
  settled with no value.\<close>

definition analysisStarted :: "node list \<Rightarrow> queue_item \<Rightarrow> promise \<Rightarrow> bool" where
  "analysisStarted doc item p =
     (if itemType item = ''text'' then
        (case itemView doc (element item) of
           None \<Rightarrow> p = Fulfilled (Some (Skipped ''element_not_connected''))
         | Some (content, loaded) \<Rightarrow>
             (if trim content = [] then p = Fulfilled (Some (Skipped ''no_text''))
              else if length (trim content) < 5
              then p = Fulfilled (Some (Skipped ''text_too_short''))
              else p = Pending (FetchText (element item) (trim content))))
      else if itemType item = ''image'' then
        (case itemView doc (element item) of
           None \<Rightarrow> p = Pending (ImageWork (element item))
         | Some (content, loaded) \<Rightarrow>
             (if loaded then p = Rejected else p = Pending (ImageWork (element item))))
      else p = Fulfilled None)"

text \<open>A page with a single paragraph, and a page with a single image.\<close>

definition samplePage :: "string \<Rightarrow> node list" where
  "samplePage t = [Element (blankElem 1 ''P'' (0, 0)) [TextNode t]]"

definition sampleImage :: "nat \<Rightarrow> string \<Rightarrow> node list" where
  "sampleImage w url =
     [Element ((blankElem 1 ''IMG'' (0, 0))
                 \<lparr>attributes := [(''src'', url)], src := url, complete := True, naturalWidth := w,
                  naturalHeight := w, width := w, height := w\<rparr>) []]"

text \<open>Where an element sits: its ancestors, outermost first, and the element itself.\<close>

fun locate :: "nat \<Rightarrow> node list \<Rightarrow> (elem list \<times> node) option" where
  "locate i [] = None"
| "locate i (TextNode t # ns) = locate i ns"
| "locate i (Element e ks # ns) =
     (if nodeId e = i then Some ([], Element e ks)
      else (case locate i ks of
              Some (as, n) \<Rightarrow> Some (e # as, n)
            | None \<Rightarrow> locate i ns))"

text \<open>An element that none of the sweeps of \<open>restoreOriginalContent\<close> removes.\<close>

definition isPlain :: "elem \<Rightarrow> bool" where
  "isPlain e = (\<not> isPipelineNode e \<and> \<not> hasClass ''socioio-overlay'' e)"

text \<open>The children of a text element after its text was set: nothing but text.\<close>

definition textChildren :: "string \<Rightarrow> node list" where
  "textChildren t = (if t = [] then [] else [TextNode t])"

text \<open>An element after a sweep that may have dropped classes and touched image
  attributes, but not its identity, its saved text or its filter mark.\<close>

definition restoredFrom :: "elem \<Rightarrow> elem \<Rightarrow> bool" where
  "restoredFrom a b =
     (nodeId b = nodeId a \<and> set (classList b) \<subseteq> set (classList a)
      \<and> getAttribute ''data-original-text'' b = getAttribute ''data-original-text'' a
      \<and> hasClass ''socioio-filtered-text'' b = hasClass ''socioio-filtered-text'' a)"

text \<open>Sample states and inputs.\<close>

definition helloItem :: queue_item where
  "helloItem = \<lparr>itemType = ''text'', element = 1, priority = None\<rparr>"

definition allowVerdict :: verdict where
  "allowVerdict = \<lparr>action = ''allow'', reasons = []\<rparr>"

definition busyState :: pipeline where
  "busyState = (initialState (samplePage ''hello world''))
     \<lparr>currentlyProcessing := True,
      processingQueue := [\<lparr>itemType = ''text'', element = 1, priority = None\<rparr>],
      batches := [[Pending (ImageWork 7)]]\<rparr>"

definition encryptVerdict :: verdict where
  "encryptVerdict = \<lparr>action = ''encrypt'', reasons = [''Sensitive information'']\<rparr>"

definition removeVerdict :: verdict where
  "removeVerdict = \<lparr>action = ''remove'', reasons = [''Profanity'']\<rparr>"

definition disabledInFlight :: pipeline where
  "disabledInFlight =
     run [Enqueue helloItem, CallProcessNextBatch, ToggleProtection False]
       (initialState (samplePage ''hello world''))"

definition backendDown :: pipeline where
  "backendDown = (initialState (samplePage ''hello world''))\<lparr>backendRunning := False\<rparr>"

definition smallImagePage :: "node list" where
  "smallImagePage = sampleImage 40 ''https://example.com/a.png''"

definition paddedPage :: "node list" where
  "paddedPage = samplePage ''  hello world ''"

text \<open>A filtered image as \<open>addOverlayToImage\<close> leaves it: inside a wrapper, next to
  its overlay.\<close>

definition wrappedImagePage :: "node list" where
  "wrappedImagePage =
     [Element ((blankElem 1 ''DIV'' (0, 0))\<lparr>classList := [''socioio-image-wrapper'']\<rparr>)
        [Element ((blankElem 2 ''IMG'' (0, 0))
                    \<lparr>classList := [''socioio-filtered-image''],
                     attributes := [(''src'', ''https://example.com/a.png'')],
                     src := ''https://example.com/a.png'',
                     style := [(''filter'', ''blur(20px)'')]\<rparr>) [],
         Element ((blankElem 3 ''DIV'' (0, 0))\<lparr>classList := [''socioio-overlay'']\<rparr>) []]]"

section \<open>Verified properties\<close>


subsection \<open>Characters and the word-boundary pattern\<close>

lemma isWordChar_toLower [simp]: "isWordChar (toLowerChar c) = isWordChar c"
  by (auto simp: isWordChar_def toLowerChar_def isUpperAscii_def isLowerAscii_def isDigitAscii_def)

lemma not_upper_toLower [simp]: "\<not> isUpperAscii (toLowerChar c)"
  by (auto simp: toLowerChar_def isUpperAscii_def)

lemma of_char_le_255: "(of_char c :: nat) < 256"
  by (rule order_less_le_trans [of _ 256]) (auto simp: of_char_def intro!: horner_sum_bit_eq_take_bit)

lemma of_char_canonicalize:
  "(of_char (canonicalize c) :: nat) = (if isLowerAscii c then of_char c - 32 else of_char c)"
  using of_char_le_255 [of c] by (auto simp: canonicalize_def isLowerAscii_def)

lemma canonicalize_inj:
  assumes "\<not> isUpperAscii a" "\<not> isUpperAscii b" "canonicalize a = canonicalize b"
  shows "a = b"
proof -
  have "(of_char (canonicalize a) :: nat) = of_char (canonicalize b)"
    using assms(3) by simp
  then have *: "(if isLowerAscii a then (of_char a :: nat) - 32 else of_char a)
               = (if isLowerAscii b then (of_char b :: nat) - 32 else of_char b)"
    unfolding of_char_canonicalize .
  define x y where "x = (of_char a :: nat)" and "y = (of_char b :: nat)"
  have "x = y"
    using * assms(1,2) unfolding isLowerAscii_def isUpperAscii_def x_def [symmetric] y_def [symmetric]
    by (simp split: if_splits; arith)
  then show ?thesis by (simp add: x_def y_def)
qed

lemma map_canonicalize_inj:
  "list_all (\<lambda>c. \<not> isUpperAscii c) xs \<Longrightarrow> list_all (\<lambda>c. \<not> isUpperAscii c) ys
   \<Longrightarrow> map canonicalize xs = map canonicalize ys \<Longrightarrow> xs = ys"
proof (induction xs arbitrary: ys)
  case Nil
  then show ?case by simp
next
  case (Cons x xs)
  then obtain y ys' where ys: "ys = y # ys'" by (cases ys) auto
  with Cons show ?case by (auto dest: canonicalize_inj)
qed

lemma list_all_not_upper_toLowerCase [simp]:
  "list_all (\<lambda>c. \<not> isUpperAscii c) (toLowerCase t)"
  by (simp add: toLowerCase_def list_all_iff)

lemma toLowerCase_take_drop:
  "take n (drop i (toLowerCase t)) = toLowerCase (take n (drop i t))"
  by (simp add: toLowerCase_def take_map drop_map)

lemma matchesAt_iff:
  assumes w: "w \<noteq> []" "list_all (\<lambda>c. \<not> isUpperAscii c) w"
    and hd: "isWordChar (hd w)" and lst: "isWordChar (last w)"
  shows "matchesAt w (toLowerCase t) i \<longleftrightarrow>
     (i + length w \<le> length t \<and> toLowerCase (take (length w) (drop i t)) = w
      \<and> (i = 0 \<or> \<not> isWordChar (t ! (i - 1)))
      \<and> (i + length w = length t \<or> \<not> isWordChar (t ! (i + length w))))"
proof (cases "i + length w \<le> length t")
  case False
  then show ?thesis by (simp add: matchesAt_def toLowerCase_def)
next
  case len: True
  let ?s = "toLowerCase t"
  let ?mid = "take (length w) (drop i t)"
  have n: "0 < length w" using w(1) by simp
  have eq: "map canonicalize (take (length w) (drop i ?s)) = map canonicalize w
            \<longleftrightarrow> toLowerCase ?mid = w"
    unfolding toLowerCase_take_drop
    using map_canonicalize_inj [OF list_all_not_upper_toLowerCase w(2)] by auto
  show ?thesis
  proof (cases "toLowerCase ?mid = w")
    case False
    then show ?thesis using eq by (simp add: matchesAt_def)
  next
    case mid: True
    have lmid: "length ?mid = length w" using len by simp
    have n1: "1 \<le> length w" using w(1) by (cases w) simp_all
    have ilt: "i < length t" "i + length w - 1 < length t" using len n1 by linarith+
    have first: "?s ! i = hd w"
    proof -
      have "?s ! i = toLowerCase ?mid ! 0"
        using len n ilt by (simp add: toLowerCase_def)
      also have "\<dots> = hd w" using mid w(1) by (simp add: hd_conv_nth)
      finally show ?thesis .
    qed
    have lastc: "?s ! (i + length w - 1) = last w"
    proof -
      have idx: "i + length w - Suc 0 = i + (length w - Suc 0)" using n1 by linarith
      have "?s ! (i + length w - 1) = toLowerCase ?mid ! (length w - 1)"
        using len n ilt by (simp add: toLowerCase_def idx)
      also have "\<dots> = last w" using mid w(1) by (simp add: last_conv_nth)
      finally show ?thesis .
    qed
    have b1: "isWordBoundary ?s i \<longleftrightarrow> (i = 0 \<or> \<not> isWordChar (t ! (i - 1)))"
      using len n ilt first hd by (auto simp: isWordBoundary_def toLowerCase_def)
    have b2: "isWordBoundary ?s (i + length w)
              \<longleftrightarrow> (i + length w = length t \<or> \<not> isWordChar (t ! (i + length w)))"
      using len n ilt lastc lst by (auto simp: isWordBoundary_def toLowerCase_def)
    show ?thesis using eq mid b1 b2 len by (simp add: matchesAt_def toLowerCase_def)
  qed
qed


lemma wordRegexTest_iff:
  assumes "plainWord w"
  shows "wordRegexTest w (toLowerCase t) \<longleftrightarrow> wholeWordOccurs w t"
proof
  have pw: "w \<noteq> []" "list_all (\<lambda>c. \<not> isUpperAscii c) w" "isWordChar (hd w)" "isWordChar (last w)"
    using assms by (simp_all add: plainWord_def)
  note iff = matchesAt_iff [OF pw]
  {
    assume "wordRegexTest w (toLowerCase t)"
    then obtain i where m: "matchesAt w (toLowerCase t) i"
      by (auto simp: wordRegexTest_def list_ex_iff)
    let ?n = "length w"
    from m have len: "i + ?n \<le> length t"
      and mid: "toLowerCase (take ?n (drop i t)) = w"
      and b1: "i = 0 \<or> \<not> isWordChar (t ! (i - 1))"
      and b2: "i + ?n = length t \<or> \<not> isWordChar (t ! (i + ?n))"
      unfolding iff by simp_all
    have d: "drop (i + ?n) t = drop ?n (drop i t)" by (simp add: add.commute)
    have split: "t = take i t @ take ?n (drop i t) @ drop (i + ?n) t"
      unfolding d by (simp only: append_take_drop_id)
    have p1: "take i t = [] \<or> \<not> isWordChar (last (take i t))"
    proof (cases "i = 0")
      case True then show ?thesis by simp
    next
      case False
      with len have "take i t \<noteq> []" by auto
      then have "last (take i t) = t ! (i - 1)"
        using len False by (simp add: last_conv_nth)
      with b1 False show ?thesis by simp
    qed
    have p2: "drop (i + ?n) t = [] \<or> \<not> isWordChar (hd (drop (i + ?n) t))"
    proof (cases "i + ?n = length t")
      case True then show ?thesis by simp
    next
      case False
      with len have "i + ?n < length t" by simp
      then have "hd (drop (i + ?n) t) = t ! (i + ?n)" by (simp add: hd_drop_conv_nth)
      with b2 False show ?thesis by simp
    qed
    show "wholeWordOccurs w t"
      unfolding wholeWordOccurs_def using split mid p1 p2 by blast
  }
  {
    assume "wholeWordOccurs w t"
    then obtain pre mid post where t: "t = pre @ mid @ post" and mid: "toLowerCase mid = w"
      and p1: "pre = [] \<or> \<not> isWordChar (last pre)"
      and p2: "post = [] \<or> \<not> isWordChar (hd post)"
      unfolding wholeWordOccurs_def by blast
    let ?i = "length pre"
    have lm: "length mid = length w" using mid by (auto simp: toLowerCase_def)
    have len: "?i + length w \<le> length t" using t lm by simp
    have m: "toLowerCase (take (length w) (drop ?i t)) = w" using t lm mid by simp
    have b1: "?i = 0 \<or> \<not> isWordChar (t ! (?i - 1))"
    proof (cases "pre = []")
      case True then show ?thesis by simp
    next
      case False
      then have "t ! (?i - 1) = last pre" using t by (simp add: nth_append last_conv_nth)
      with p1 False show ?thesis by simp
    qed
    have b2: "?i + length w = length t \<or> \<not> isWordChar (t ! (?i + length w))"
    proof (cases "post = []")
      case True then show ?thesis using t lm by simp
    next
      case False
      then have "t ! (?i + length w) = hd post"
        using t lm by (simp add: nth_append hd_conv_nth)
      with p2 False show ?thesis by simp
    qed
    have "matchesAt w (toLowerCase t) ?i" unfolding iff using len m b1 b2 by simp
    moreover have "?i \<in> set [0 ..< Suc (length (toLowerCase t))]"
      using t by (simp add: toLowerCase_def)
    ultimately show "wordRegexTest w (toLowerCase t)"
      unfolding wordRegexTest_def list_ex_iff by blast
  }
qed

lemma plain_fallback_words: "list_all plainWord (profanityWords @ hateWords)"
  by code_simp

lemmas char_eval = toLowerCase_def toLowerChar_def canonicalize_def isWordChar_def
  isUpperAscii_def isLowerAscii_def isDigitAscii_def isWhiteSpace_def char_of_def bit_Suc_0_iff

lemma matchesAt_eval:
  "matchesAt w s i = (isWordBoundary s i \<and> i + length w \<le> length s
      \<and> take (length w) (drop i (map canonicalize s)) = map canonicalize w
      \<and> isWordBoundary s (i + length w))"
  by (simp add: matchesAt_def take_map drop_map)

lemma canon_words:
  "map (map canonicalize) (profanityWords @ hateWords)
     = [''FUCK'', ''SHIT'', ''ASSHOLE'', ''NIGGER'', ''FAGGOT'', ''KILL ALL'']"
  by (simp add: profanityWords_def hateWords_def char_eval)

lemmas regex_eval = isWordBoundary_def isWordChar_def isUpperAscii_def isLowerAscii_def
  isDigitAscii_def upt_rec

subsection \<open>Looking up and updating an element\<close>

lemma updateNode_absent: "findNode i doc = None \<Longrightarrow> updateNode i g doc = doc"
  by (induction i doc rule: findNode.induct) (auto split: option.splits if_splits)

lemma findNode_updateNode_same:
  "findNode i doc = Some n \<Longrightarrow> isElementWithId i (g n)
   \<Longrightarrow> findNode i (updateNode i g doc) = Some (g n)"
proof (induction i doc rule: findNode.induct)
  case (1 i)
  then show ?case by simp
next
  case (2 i t ns)
  then show ?case by simp
next
  case (3 i e ks ns)
  show ?case
  proof (cases "nodeId e = i")
    case True
    with 3 show ?thesis by (cases "g (Element e ks)") auto
  next
    case False
    show ?thesis
    proof (cases "findNode i ks")
      case None
      with 3 False show ?thesis by (simp add: updateNode_absent)
    next
      case (Some m)
      with 3 False show ?thesis by simp
    qed
  qed
qed

lemma findNode_id: "findNode i doc = Some n \<Longrightarrow> isElementWithId i n"
  by (induction i doc rule: findNode.induct) (auto split: option.splits if_splits)

lemma isProfanity_iff:
  "isProfanity (toLowerCase t) \<longleftrightarrow> (\<exists>w \<in> set profanityWords. wholeWordOccurs w t)"
proof -
  have "\<forall>w \<in> set profanityWords. plainWord w"
    using plain_fallback_words by (simp add: list_all_iff)
  then show ?thesis
    by (auto simp: isProfanity_def list_ex_iff wordRegexTest_iff)
qed

lemma isHateSpeech_iff:
  "isHateSpeech (toLowerCase t) \<longleftrightarrow> (\<exists>w \<in> set hateWords. wholeWordOccurs w t)"
proof -
  have "\<forall>w \<in> set hateWords. plainWord w"
    using plain_fallback_words by (simp add: list_all_iff)
  then show ?thesis
    by (auto simp: isHateSpeech_def list_ex_iff wordRegexTest_iff)
qed

subsection \<open>The first part of processTextElement\<close>

lemma map_of_assocSet_same [simp]: "map_of (assocSet k v ps) k = Some v"
  by (induction ps) auto

lemma getAttribute_setAttribute_same [simp]:
  "getAttribute k (setAttribute k v e) = Some v"
  by (simp add: getAttribute_def setAttribute_def)

lemma processTextElement_start_long:
  assumes "findNode i (document s) = Some (Element e ks)" and "5 \<le> length (trim (textOf ks))"
  shows "processTextElement_start i s =
      (s\<lparr>document := updateNode i (onElem (setAttribute ''data-original-text'' (trim (textOf ks))))
                        (document s)\<rparr>,
       Inr (trim (textOf ks)))"
proof -
  have "trim (textOf ks) \<noteq> []" using assms(2) by auto
  then show ?thesis using assms by (simp add: processTextElement_start_def Let_def)
qed

lemma resume_Kept_state:
  "processTextElement_resume i text outcome s = (s2, Kept) \<Longrightarrow> s2 = s"
  by (auto simp: processTextElement_resume_def Let_def split: fetch_outcome.splits if_splits)

section \<open>The local text fallback\<close>

lemma oh_shit_eval:
  "toLowerCase ''oh Shit!'' = ''oh shit!''"
  "isProfanity ''oh shit!''" "\<not> isHateSpeech ''oh shit!''"
proof -
  show "toLowerCase ''oh Shit!'' = ''oh shit!''" by (simp add: char_eval)
  have cs: "map canonicalize ''oh shit!'' = ''OH SHIT!''" by (simp add: char_eval)
  have cw: "map canonicalize ''fuck'' = ''FUCK''" "map canonicalize ''shit'' = ''SHIT''"
    "map canonicalize ''asshole'' = ''ASSHOLE''" "map canonicalize ''nigger'' = ''NIGGER''"
    "map canonicalize ''faggot'' = ''FAGGOT''" "map canonicalize ''kill all'' = ''KILL ALL''"
    using canon_words by (simp_all add: profanityWords_def hateWords_def)
  show "isProfanity ''oh shit!''"
    unfolding isProfanity_def profanityWords_def list_ex_Cons_iff list_ex_Nil_iff
      wordRegexTest_def matchesAt_eval cs cw
    by (simp add: regex_eval)
  show "\<not> isHateSpeech ''oh shit!''"
    unfolding isHateSpeech_def hateWords_def list_ex_Cons_iff list_ex_Nil_iff
      wordRegexTest_def matchesAt_eval cs cw
    by (simp add: regex_eval)
qed

lemma trim_oh_shit: "trim ''  oh Shit! '' = ''oh Shit!''"
  by (simp add: trim_def char_eval)

text \<open>
  Claim C3. When the analysis request fails, the fallback of \<open>processTextElement\<close> answers
  \<open>remove\<close> (the result \<open>filtered\<close> with the action \<open>remove\<close> and its reasons) exactly for
  the texts in which a word of the fixed profanity list or of the fixed hate-speech list
  occurs as a whole word, whatever its case, and answers \<open>allow\<close> (the result \<open>kept\<close>)
  for every other text. The element is connected and its trimmed text has at least five
  characters, which is when the request is made at all.
\<close>

theorem text_fallback_whole_word_match:
  assumes "findNode i (document s) = Some (Element e ks)" and "5 \<le> length (trim (textOf ks))"
  shows "snd (processTextElement i RequestFailed s) =
     (if (\<exists>w \<in> set (profanityWords @ hateWords). wholeWordOccurs w (trim (textOf ks)))
      then Filtered ''remove'' (fallbackReasons (toLowerCase (trim (textOf ks))))
      else Kept)"
  unfolding processTextElement_def processTextElement_start_long [OF assms]
  by (auto simp: processTextElement_resume_def Let_def isProfanity_iff isHateSpeech_iff)

theorem text_fallback_whole_word_match_witness:
  "findNode 1 (document (initialState (samplePage ''  oh Shit! '')))
      = Some (Element (blankElem 1 ''P'' (0, 0)) [TextNode ''  oh Shit! ''])
   \<and> 5 \<le> length (trim (textOf [TextNode ''  oh Shit! '']))
   \<and> (\<exists>w \<in> set (profanityWords @ hateWords). wholeWordOccurs w ''oh Shit!'')
   \<and> snd (processTextElement 1 RequestFailed (initialState (samplePage ''  oh Shit! '')))
       = Filtered ''remove'' [''Profanity detected'']"
proof -
  let ?s = "initialState (samplePage ''  oh Shit! '')"
  have f: "findNode 1 (document ?s) = Some (Element (blankElem 1 ''P'' (0, 0)) [TextNode ''  oh Shit! ''])"
    by (simp add: initialState_def samplePage_def blankElem_def)
  have l: "5 \<le> length (trim (textOf [TextNode ''  oh Shit! '']))"
    by (simp add: trim_oh_shit)
  have m: "\<exists>w \<in> set (profanityWords @ hateWords). wholeWordOccurs w ''oh Shit!''"
    using oh_shit_eval(2) isProfanity_iff [of "''oh Shit!''"] by (auto simp: oh_shit_eval(1))
  show ?thesis
    using text_fallback_whole_word_match [OF f l] f l m
    by (simp add: trim_oh_shit oh_shit_eval fallbackReasons_def)
qed

lemma kill_them_all_eval:
  "toLowerCase ''I hate everyone, kill them all'' = ''i hate everyone, kill them all''"
  "\<not> isProfanity ''i hate everyone, kill them all''"
  "\<not> isHateSpeech ''i hate everyone, kill them all''"
proof -
  show "toLowerCase ''I hate everyone, kill them all'' = ''i hate everyone, kill them all''"
    by (simp add: char_eval)
  have cs: "map canonicalize ''i hate everyone, kill them all'' = ''I HATE EVERYONE, KILL THEM ALL''"
    by (simp add: char_eval)
  have cw: "map canonicalize ''fuck'' = ''FUCK''" "map canonicalize ''shit'' = ''SHIT''"
    "map canonicalize ''asshole'' = ''ASSHOLE''" "map canonicalize ''nigger'' = ''NIGGER''"
    "map canonicalize ''faggot'' = ''FAGGOT''" "map canonicalize ''kill all'' = ''KILL ALL''"
    using canon_words by (simp_all add: profanityWords_def hateWords_def)
  show "\<not> isProfanity ''i hate everyone, kill them all''"
    unfolding isProfanity_def profanityWords_def list_ex_Cons_iff list_ex_Nil_iff
      wordRegexTest_def matchesAt_eval cs cw
    by (simp add: regex_eval)
  show "\<not> isHateSpeech ''i hate everyone, kill them all''"
    unfolding isHateSpeech_def hateWords_def list_ex_Cons_iff list_ex_Nil_iff
      wordRegexTest_def matchesAt_eval cs cw
    by (simp add: regex_eval)
qed

lemma trim_kill_them_all:
  "trim ''I hate everyone, kill them all'' = ''I hate everyone, kill them all''"
  by (simp add: trim_def char_eval)

text \<open>
  Claim C4. The hate-speech list of the fallback holds the phrase \<open>kill all\<close>. With the
  analysis request failing, the text \<open>I hate everyone, kill them all\<close> matches no entry of
  either list: each entry is matched as it stands between word boundaries, and the phrase
  does not occur in the text. The element is kept; its text is unchanged (only the saved
  copy of the text is written on it, as for every processed element).
\<close>

theorem kill_them_all_not_matched:
  "''kill all'' \<in> set hateWords
   \<and> \<not> isHateSpeech (toLowerCase ''I hate everyone, kill them all'')
   \<and> \<not> isProfanity (toLowerCase ''I hate everyone, kill them all'')
   \<and> processTextElement 1 RequestFailed (initialState (samplePage ''I hate everyone, kill them all''))
       = ((initialState (samplePage ''I hate everyone, kill them all''))
            \<lparr>document := [Element (setAttribute ''data-original-text'' ''I hate everyone, kill them all''
                                     (blankElem 1 ''P'' (0, 0)))
                            [TextNode ''I hate everyone, kill them all'']]\<rparr>, Kept)"
  by (simp add: kill_them_all_eval trim_kill_them_all hateWords_def processTextElement_def
      processTextElement_start_def processTextElement_resume_def initialState_def samplePage_def
      blankElem_def Let_def)

theorem kill_them_all_not_matched_witness:
  "snd (processTextElement 1 RequestFailed
          (initialState (samplePage ''I hate everyone, kill them all''))) = Kept"
  using kill_them_all_not_matched by simp

section \<open>The saved original text\<close>

lemma trim_hello_world: "trim ''  hello world '' = ''hello world''"
  by (simp add: trim_def char_eval)

text \<open>
  Claim C10. For a connected text element whose trimmed text has at least five characters,
  \<open>processTextElement\<close> writes the trimmed text into \<open>data-original-text\<close> in its first part,
  which ends by sending the analysis request; what follows the request starts from that
  state whatever the outcome, and an element that is kept still carries the attribute
  when processing is over.
\<close>

theorem original_text_saved_before_analysis:
  assumes "findNode i (document s) = Some (Element e ks)" and "5 \<le> length (trim (textOf ks))"
  shows "\<exists>s1. processTextElement_start i s = (s1, Inr (trim (textOf ks)))
     \<and> findNode i (document s1)
         = Some (Element (setAttribute ''data-original-text'' (trim (textOf ks)) e) ks)
     \<and> getAttribute ''data-original-text''
          (setAttribute ''data-original-text'' (trim (textOf ks)) e) = Some (trim (textOf ks))
     \<and> (\<forall>outcome. processTextElement i outcome s
            = processTextElement_resume i (trim (textOf ks)) outcome s1)
     \<and> (\<forall>outcome s2. processTextElement i outcome s = (s2, Kept) \<longrightarrow>
            findNode i (document s2)
              = Some (Element (setAttribute ''data-original-text'' (trim (textOf ks)) e) ks))"
proof -
  let ?t = "trim (textOf ks)"
  let ?s1 = "s\<lparr>document := updateNode i (onElem (setAttribute ''data-original-text'' ?t)) (document s)\<rparr>"
  have start: "processTextElement_start i s = (?s1, Inr ?t)"
    by (rule processTextElement_start_long [OF assms])
  have idn: "nodeId e = i" using findNode_id [OF assms(1)] by simp
  have "findNode i (document ?s1) = Some (onElem (setAttribute ''data-original-text'' ?t) (Element e ks))"
    using findNode_updateNode_same [OF assms(1), of "onElem (setAttribute ''data-original-text'' ?t)"] idn
    by (simp add: setAttribute_def)
  then have found: "findNode i (document ?s1) = Some (Element (setAttribute ''data-original-text'' ?t e) ks)"
    by simp
  have all: "\<forall>outcome. processTextElement i outcome s = processTextElement_resume i ?t outcome ?s1"
    by (simp add: processTextElement_def start)
  have kept: "\<forall>outcome s2. processTextElement i outcome s = (s2, Kept) \<longrightarrow> s2 = ?s1"
    using all resume_Kept_state by metis
  have kept2: "\<forall>outcome s2. processTextElement i outcome s = (s2, Kept) \<longrightarrow>
      findNode i (document s2) = Some (Element (setAttribute ''data-original-text'' ?t e) ks)"
    using kept found by blast
  show ?thesis
  proof (intro exI [of _ ?s1] conjI)
    show "processTextElement_start i s = (?s1, Inr ?t)" by (rule start)
    show "findNode i (document ?s1) = Some (Element (setAttribute ''data-original-text'' ?t e) ks)"
      by (rule found)
    show "getAttribute ''data-original-text'' (setAttribute ''data-original-text'' ?t e) = Some ?t"
      by simp
    show "\<forall>outcome. processTextElement i outcome s = processTextElement_resume i ?t outcome ?s1"
      by (rule all)
    show "\<forall>outcome s2. processTextElement i outcome s = (s2, Kept) \<longrightarrow>
      findNode i (document s2) = Some (Element (setAttribute ''data-original-text'' ?t e) ks)"
      by (rule kept2)
  qed
qed


theorem original_text_saved_before_analysis_witness:
  "findNode 1 (document (initialState (samplePage ''  hello world '')))
      = Some (Element (blankElem 1 ''P'' (0, 0)) [TextNode ''  hello world ''])
   \<and> 5 \<le> length (trim (textOf [TextNode ''  hello world '']))
   \<and> (\<exists>s1. processTextElement_start 1 (initialState (samplePage ''  hello world ''))
               = (s1, Inr ''hello world'')
          \<and> findNode 1 (document s1)
              = Some (Element (setAttribute ''data-original-text'' ''hello world''
                                 (blankElem 1 ''P'' (0, 0)))
                        [TextNode ''  hello world '']))"
proof -
  let ?s = "initialState (samplePage ''  hello world '')"
  have f: "findNode 1 (document ?s)
             = Some (Element (blankElem 1 ''P'' (0, 0)) [TextNode ''  hello world ''])"
    by (simp add: initialState_def samplePage_def blankElem_def)
  have l: "5 \<le> length (trim (textOf [TextNode ''  hello world '']))"
    by (simp add: trim_hello_world)
  show ?thesis
    using original_text_saved_before_analysis [OF f l] f l
    by (auto simp: trim_hello_world)
qed

section \<open>The dispatcher\<close>

subsection \<open>What the helpers leave alone\<close>

lemma start_frame:
  "processTextElement_start i s = (s1, r) \<Longrightarrow> s1 = s\<lparr>document := document s1\<rparr>"
  by (auto simp: processTextElement_start_def Let_def split: option.splits if_splits)

lemma resume_frame:
  "processTextElement_resume i text outcome s = (s1, r) \<Longrightarrow>
     s1 = s\<lparr>document := document s1, nextNodeId := nextNodeId s1\<rparr>"
  by (auto simp: processTextElement_resume_def filterElement_def Let_def
      split: fetch_outcome.splits if_splits)

lemma processElement_frame:
  "processElement item s = (s1, p) \<Longrightarrow> s1 = s\<lparr>document := document s1\<rparr>"
  by (auto simp: processElement_def
      split: if_splits prod.splits sum.splits option.splits node.splits dest: start_frame)

lemma mapProcessElement_frame:
  "mapProcessElement items s = (s1, ps) \<Longrightarrow>
     s1 = s\<lparr>document := document s1\<rparr> \<and> length ps = length items"
proof (induction items arbitrary: s s1 ps)
  case Nil
  then show ?case by simp
next
  case (Cons item items)
  obtain sa p where a: "processElement item s = (sa, p)" by (cases "processElement item s")
  obtain sb qs where b: "mapProcessElement items sa = (sb, qs)"
    by (cases "mapProcessElement items sa")
  from Cons.prems a b have eq: "s1 = sb" "ps = p # qs" by simp_all
  from processElement_frame [OF a] have fa: "sa = s\<lparr>document := document sa\<rparr>" .
  from Cons.IH [OF b] have fb: "sb = sa\<lparr>document := document sb\<rparr>" "length qs = length items"
    by simp_all
  have "sb = s\<lparr>document := document sb\<rparr>"
    by (subst fb(1), subst fa) simp
  then show ?case using eq fb(2) by simp
qed


subsection \<open>Every item of a batch has its analysis invoked\<close>

lemma textOf_updateNode_onElem: "textOf (updateNode i (onElem f) ns) = textOf ns"
  by (induction ns rule: textOf.induct) simp_all

lemma itemView_updateNode:
  assumes "\<forall>x. nodeId (f x) = nodeId x \<and> complete (f x) = complete x"
  shows "itemView (updateNode i (onElem f) doc) j = itemView doc j"
  unfolding itemView_def
proof (induction doc rule: textOf.induct)
  case 1
  then show ?case by simp
next
  case (2 t ns)
  then show ?case by simp
next
  case (3 e ks ns)
  let ?v = "\<lambda>n. (textContent n, nodeComplete n)"
  show ?case
  proof (cases "nodeId e = i")
    case True
    have "nodeId (f e) = nodeId e" "complete (f e) = complete e" using assms by simp_all
    then show ?thesis using True 3(2) by (simp split: option.splits)
  next
    case False
    show ?thesis
    proof (cases "nodeId e = j")
      case True
      then show ?thesis using False by (simp add: textOf_updateNode_onElem)
    next
      case nj: False
      show ?thesis
      proof (cases "findNode j ks")
        case None
        then have "findNode j (updateNode i (onElem f) ks) = None" using 3(1) by simp
        then show ?thesis using None False nj 3(2) by simp
      next
        case (Some n)
        then obtain n' where n': "findNode j (updateNode i (onElem f) ks) = Some n'"
          and v: "?v n' = ?v n" using 3(1) by auto
        then show ?thesis using Some False nj by simp
      qed
    qed
  qed
qed

lemma start_itemView:
  "itemView (document (fst (processTextElement_start i s))) j = itemView (document s) j"
  by (simp add: processTextElement_start_def Let_def itemView_updateNode setAttribute_def
      split: option.splits)

lemma processElement_itemView:
  "itemView (document (fst (processElement item s))) j = itemView (document s) j"
proof (cases "itemType item = ''text''")
  case True
  obtain s1 r where st: "processTextElement_start (element item) s = (s1, r)"
    by (cases "processTextElement_start (element item) s")
  have "itemView (document s1) j = itemView (document s) j"
    using start_itemView [of "element item" s j] st by simp
  then show ?thesis using True st by (simp add: processElement_def split: sum.splits)
next
  case False
  then show ?thesis by (simp add: processElement_def split: option.splits node.splits)
qed

lemma processElement_started: "analysisStarted (document s) item (snd (processElement item s))"
proof (cases "itemType item = ''text''")
  case True
  then show ?thesis
    by (simp add: processElement_def analysisStarted_def itemView_def
        processTextElement_start_def Let_def split: option.splits)
next
  case False
  then show ?thesis
    by (simp add: processElement_def analysisStarted_def itemView_def
        split: option.splits node.splits)
qed

lemma analysisStarted_view:
  "itemView doc' (element item) = itemView doc (element item)
   \<Longrightarrow> analysisStarted doc' item p = analysisStarted doc item p"
  by (simp add: analysisStarted_def)

lemma mapProcessElement_started:
  "mapProcessElement items s = (s1, ps) \<Longrightarrow>
     list_all2 (analysisStarted (document s)) items ps
     \<and> (\<forall>j. itemView (document s1) j = itemView (document s) j)"
proof (induction items arbitrary: s s1 ps)
  case Nil
  then show ?case by simp
next
  case (Cons item items)
  obtain sa p where a: "processElement item s = (sa, p)" by (cases "processElement item s")
  obtain sb qs where b: "mapProcessElement items sa = (sb, qs)"
    by (cases "mapProcessElement items sa")
  from Cons.prems a b have eq: "s1 = sb" "ps = p # qs" by simp_all
  have va: "\<forall>j. itemView (document sa) j = itemView (document s) j"
    using processElement_itemView [of item s] a by simp
  have pa: "analysisStarted (document s) item p"
    using processElement_started [of s item] a by simp
  from Cons.IH [OF b]
  have qb: "list_all2 (analysisStarted (document sa)) items qs"
    and vb: "\<forall>j. itemView (document sb) j = itemView (document sa) j" by simp_all
  have "analysisStarted (document sa) x y \<Longrightarrow> analysisStarted (document s) x y" for x y
    using analysisStarted_view [of "document sa" x "document s" y] va by blast
  then have "list_all2 (analysisStarted (document s)) items qs"
    by (rule list_all2_mono [OF qb])
  then show ?case using eq pa va vb by simp
qed

lemma processNextBatch_guard:
  "currentlyProcessing s \<or> length (processingQueue s) = 0 \<or> \<not> isEnabled s
   \<Longrightarrow> processNextBatch s = s"
  by (simp add: processNextBatch_def)

lemma processNextBatch_start:
  assumes "\<not> (currentlyProcessing s \<or> length (processingQueue s) = 0 \<or> \<not> isEnabled s)"
  shows "\<exists>d ps. processNextBatch s =
           s\<lparr>currentlyProcessing := True,
             processingQueue := drop BATCH_SIZE (processingQueue s),
             document := d, batches := batches s @ [ps]\<rparr>
         \<and> length ps = length (take BATCH_SIZE (processingQueue s))
         \<and> list_all2 (analysisStarted (document s)) (take BATCH_SIZE (processingQueue s)) ps"
proof -
  let ?s1 = "s\<lparr>currentlyProcessing := True, processingQueue := drop BATCH_SIZE (processingQueue s)\<rparr>"
  obtain s2 ps where m: "mapProcessElement (take BATCH_SIZE (processingQueue s)) ?s1 = (s2, ps)"
    by (cases "mapProcessElement (take BATCH_SIZE (processingQueue s)) ?s1")
  from mapProcessElement_frame [OF m]
  have f: "s2 = ?s1\<lparr>document := document s2\<rparr>"
    and l: "length ps = length (take BATCH_SIZE (processingQueue s))" by simp_all
  from mapProcessElement_started [OF m]
  have a: "list_all2 (analysisStarted (document s)) (take BATCH_SIZE (processingQueue s)) ps"
    by simp
  have "processNextBatch s = s2\<lparr>batches := batches s2 @ [ps]\<rparr>"
    using assms m by (simp add: processNextBatch_def Let_def)
  also have "\<dots> = s\<lparr>currentlyProcessing := True,
             processingQueue := drop BATCH_SIZE (processingQueue s),
             document := document s2, batches := batches s @ [ps]\<rparr>"
    by (subst f, subst f) simp
  finally show ?thesis using l a by blast
qed

text \<open>
  Claim C1. In every pipeline state in which a dispatch cycle is running
  (\<open>currentlyProcessing\<close>), or the queue is empty, or the pipeline is disabled, calling
  \<open>processNextBatch\<close> changes nothing: no batch is started, and the queue, the page and
  every other part of the state are as before.
\<close>

theorem processNextBatch_noop:
  assumes "currentlyProcessing s \<or> length (processingQueue s) = 0 \<or> \<not> isEnabled s"
  shows "processNextBatch s = s \<and> step CallProcessNextBatch s = s
         \<and> batches (processNextBatch s) = batches s
         \<and> processingQueue (processNextBatch s) = processingQueue s
         \<and> document (processNextBatch s) = document s"
  using assms by (simp add: processNextBatch_def)

theorem processNextBatch_noop_witness:
  "(currentlyProcessing busyState \<or> length (processingQueue busyState) = 0 \<or> \<not> isEnabled busyState)
   \<and> processNextBatch busyState = busyState
   \<and> length (processingQueue (processNextBatch busyState)) = 1"
proof -
  have g: "currentlyProcessing busyState \<or> length (processingQueue busyState) = 0
           \<or> \<not> isEnabled busyState"
    by (simp add: busyState_def)
  show ?thesis using processNextBatch_noop [OF g] g by (simp add: busyState_def)
qed

subsection \<open>Single flight is an invariant\<close>

lemma queueImageForAnalysis_ctl [simp]:
  "batches (queueImageForAnalysis img s) = batches s"
  "currentlyProcessing (queueImageForAnalysis img s) = currentlyProcessing s"
  "timers (queueImageForAnalysis img s) = timers s"
  "isEnabled (queueImageForAnalysis img s) = isEnabled s"
  "document (queueImageForAnalysis img s) = document s"
  by (simp_all add: queueImageForAnalysis_def Let_def split: option.splits node.splits)

lemma fold_queueImageForAnalysis_ctl [simp]:
  "batches (fold queueImageForAnalysis imgs s) = batches s"
  "currentlyProcessing (fold queueImageForAnalysis imgs s) = currentlyProcessing s"
  "timers (fold queueImageForAnalysis imgs s) = timers s"
  "isEnabled (fold queueImageForAnalysis imgs s) = isEnabled s"
  "document (fold queueImageForAnalysis imgs s) = document s"
  by (induction imgs arbitrary: s) simp_all

lemma processImage_start_ctl [simp]:
  "batches (processImage_start i s) = batches s"
  "currentlyProcessing (processImage_start i s) = currentlyProcessing s"
  "timers (processImage_start i s) = timers s"
  "isEnabled (processImage_start i s) = isEnabled s"
  "processingQueue (processImage_start i s) = processingQueue s"
  by (simp_all add: processImage_start_def Let_def split: option.splits node.splits)

lemma scanImage_ctl [simp]:
  "batches (scanImage i s) = batches s"
  "currentlyProcessing (scanImage i s) = currentlyProcessing s"
  "timers (scanImage i s) = timers s"
  "isEnabled (scanImage i s) = isEnabled s"
  "processingQueue (scanImage i s) = processingQueue s"
  by (simp_all add: scanImage_def split: option.splits node.splits)

lemma fold_scanImage_ctl [simp]:
  "batches (fold scanImage is s) = batches s"
  "currentlyProcessing (fold scanImage is s) = currentlyProcessing s"
  "timers (fold scanImage is s) = timers s"
  "isEnabled (fold scanImage is s) = isEnabled s"
  "processingQueue (fold scanImage is s) = processingQueue s"
  by (induction "is" arbitrary: s) simp_all

lemma addImageToProcessingQueue_ctl [simp]:
  "batches (fst (addImageToProcessingQueue i acc)) = batches (fst acc)"
  "currentlyProcessing (fst (addImageToProcessingQueue i acc)) = currentlyProcessing (fst acc)"
  "timers (fst (addImageToProcessingQueue i acc)) = timers (fst acc)"
  "isEnabled (fst (addImageToProcessingQueue i acc)) = isEnabled (fst acc)"
  by (simp_all add: addImageToProcessingQueue_def split: prod.splits option.splits node.splits)















lemma setEnabled_ctl [simp]:
  "batches (setEnabled b s) = batches s"
  "currentlyProcessing (setEnabled b s) = currentlyProcessing s"
  by (simp_all add: setEnabled_def Let_def)





lemma settleImage_ctl:
  "settleImage b k i ev s = s \<or> (\<exists>p. settleImage b k i ev s = settlePromise b k p s)"
  by (auto simp: settleImage_def split: image_event.splits option.splits node.splits)









lemma trim_hello_plain: "trim ''hello world'' = ''hello world''"
  by (simp add: trim_def char_eval)




section \<open>Verdicts and what they change\<close>

lemma start_hello:
  "processTextElement_start 1 (initialState (samplePage ''hello world''))
     = ((initialState (samplePage ''hello world''))
          \<lparr>document := [Element (setAttribute ''data-original-text'' ''hello world''
                                   (blankElem 1 ''P'' (0, 0))) [TextNode ''hello world'']]\<rparr>,
        Inr ''hello world'')"
  by (simp add: initialState_def samplePage_def processTextElement_start_def trim_hello_plain
      Let_def blankElem_def)

text \<open>
  Claim C5, evaluated where the code departs from it. A paragraph is processed and the
  service answers \<open>encrypt\<close>: the element is kept, and the page is exactly what it is after
  an \<open>allow\<close> verdict; nothing is masked. The same paragraph with a \<open>remove\<close> verdict has
  its text replaced.
\<close>

theorem encrypt_verdict_leaves_text_unfiltered:
  "processTextElement 1 (Response encryptVerdict) (initialState (samplePage ''hello world''))
     = ((initialState (samplePage ''hello world''))
          \<lparr>document := [Element (setAttribute ''data-original-text'' ''hello world''
                                   (blankElem 1 ''P'' (0, 0))) [TextNode ''hello world'']]\<rparr>,
        Kept)
   \<and> processTextElement 1 (Response encryptVerdict) (initialState (samplePage ''hello world''))
       = processTextElement 1 (Response allowVerdict) (initialState (samplePage ''hello world''))
   \<and> textOf (document (fst (processTextElement 1 (Response removeVerdict)
                              (initialState (samplePage ''hello world'')))))
       \<noteq> ''hello world''"
  unfolding processTextElement_def start_hello
  by (simp add: processTextElement_resume_def encryptVerdict_def allowVerdict_def removeVerdict_def
      filterElement_def applyFilteredText_def addModerationIndicator_def filteredTextFor_def
      indicatorNode_def initialState_def blankElem_def setAttribute_def classListAdd_def rectOf_def
      hasClass_def
      Let_def)


lemma verdict_not_remove_keeps:
  "action v \<noteq> ''remove'' \<Longrightarrow> processTextElement_resume i t (Response v) s = (s, Kept)"
  by (simp add: processTextElement_resume_def)

section \<open>Verdicts that arrive after the pipeline was disabled\<close>

lemma restore_plain_paragraph:
  "restoreOriginalContent
     [Element (setAttribute ''data-original-text'' ''hello world'' (blankElem 1 ''P'' (0, 0)))
        [TextNode ''hello world'']]
   = [Element (setAttribute ''data-original-text'' ''hello world'' (blankElem 1 ''P'' (0, 0)))
        [TextNode ''hello world'']]"
  by (simp add: restoreOriginalContent_def forEachSelected_def querySelectorAll_def
      isPipelineNode_def isBlurredImage_def hasClass_def blankElem_def setAttribute_def)

lemma disabledInFlight_eq:
  "disabledInFlight =
     (initialState (samplePage ''hello world''))
       \<lparr>isEnabled := False, currentlyProcessing := True,
        document := [Element (setAttribute ''data-original-text'' ''hello world''
                                (blankElem 1 ''P'' (0, 0))) [TextNode ''hello world'']],
        batches := [[Pending (FetchText 1 ''hello world'')]]\<rparr>"
proof -
  have a: "run [Enqueue helloItem, CallProcessNextBatch] (initialState (samplePage ''hello world''))
      = (initialState (samplePage ''hello world''))
         \<lparr>currentlyProcessing := True,
          document := [Element (setAttribute ''data-original-text'' ''hello world''
                                  (blankElem 1 ''P'' (0, 0))) [TextNode ''hello world'']],
          batches := [[Pending (FetchText 1 ''hello world'')]]\<rparr>"
    by (simp add: run_def initialState_def samplePage_def helloItem_def
      processNextBatch_def BATCH_SIZE_def processElement_def processTextElement_start_def
      trim_hello_plain Let_def blankElem_def)
  have "disabledInFlight = step (ToggleProtection False)
      (run [Enqueue helloItem, CallProcessNextBatch] (initialState (samplePage ''hello world'')))"
    by (simp add: disabledInFlight_def run_def)
  also have "\<dots> = (initialState (samplePage ''hello world''))
       \<lparr>isEnabled := False, currentlyProcessing := True,
        document := [Element (setAttribute ''data-original-text'' ''hello world''
                                (blankElem 1 ''P'' (0, 0))) [TextNode ''hello world'']],
        batches := [[Pending (FetchText 1 ''hello world'')]]\<rparr>"
    unfolding a
    by (simp add: setEnabled_def initialState_def restore_plain_paragraph Let_def del: One_nat_def)
  finally show ?thesis .
qed

text \<open>
  Claim C7 as stated fails. A paragraph is dispatched, its analysis request is in flight,
  protection is switched off, and then the verdict \<open>remove\<close> arrives: the pipeline is
  disabled before and after, and the text of the paragraph is replaced all the same.
\<close>

theorem late_verdict_applied_while_disabled:
  "\<not> isEnabled disabledInFlight
   \<and> map_option textContent (findNode 1 (document disabledInFlight)) = Some ''hello world''
   \<and> \<not> isEnabled (step (FetchSettles 0 0 (Response removeVerdict)) disabledInFlight)
   \<and> map_option textContent
        (findNode 1 (document (step (FetchSettles 0 0 (Response removeVerdict)) disabledInFlight)))
       = Some ''[Content filtered]''"
  unfolding disabledInFlight_eq
  by (simp add: processTextElement_resume_def removeVerdict_def settlePromise_def
      filterElement_def applyFilteredText_def addModerationIndicator_def filteredTextFor_def
      indicatorNode_def initialState_def blankElem_def setAttribute_def classListAdd_def rectOf_def
      hasClass_def
      INDICATOR_CLASS_def near_def Let_def)

text \<open>
  Claim C7, amended. The enabled flag is read where a dispatch cycle starts and nowhere
  after the analysis request: what \<open>processTextElement\<close> does when the request settles is
  the same whether the pipeline is enabled or not. While the pipeline is disabled no new
  cycle starts, and switching protection off runs the restore sweep over the page.
\<close>

theorem enabled_flag_checked_at_dispatch_only:
  "fst (processTextElement_resume i t outcome (s\<lparr>isEnabled := b\<rparr>))
     = (fst (processTextElement_resume i t outcome s))\<lparr>isEnabled := b\<rparr>
   \<and> snd (processTextElement_resume i t outcome (s\<lparr>isEnabled := b\<rparr>))
     = snd (processTextElement_resume i t outcome s)
   \<and> (\<not> isEnabled s \<longrightarrow> processNextBatch s = s)
   \<and> (isEnabled s \<longrightarrow> document (setEnabled False s) = restoreOriginalContent (document s))"
  by (auto simp: processTextElement_resume_def filterElement_def newNodeId_def
      processNextBatch_guard setEnabled_def Let_def split: fetch_outcome.splits)

theorem enabled_flag_checked_at_dispatch_only_witness:
  "\<not> isEnabled disabledInFlight \<and> processNextBatch disabledInFlight = disabledInFlight
   \<and> snd (processTextElement_resume 1 ''hello world'' (Response removeVerdict)
            (disabledInFlight\<lparr>isEnabled := True\<rparr>))
     = snd (processTextElement_resume 1 ''hello world'' (Response removeVerdict) disabledInFlight)"
proof -
  have d: "\<not> isEnabled disabledInFlight" by (simp add: disabledInFlight_eq)
  show ?thesis
    using enabled_flag_checked_at_dispatch_only
      [where i = 1 and t = "''hello world''" and outcome = "Response removeVerdict"
         and s = disabledInFlight and b = True] d
    by simp
qed

section \<open>The availability flag\<close>

lemma processNextBatch_backendRunning [simp]:
  "backendRunning (processNextBatch s) = backendRunning s"
proof (cases "currentlyProcessing s \<or> length (processingQueue s) = 0 \<or> \<not> isEnabled s")
  case True
  then show ?thesis by (simp add: processNextBatch_guard)
next
  case False
  from processNextBatch_start [OF False] show ?thesis by auto
qed

lemma scanImage_backendRunning [simp]:
  "backendRunning (scanImage i s) = backendRunning s"
  by (simp add: scanImage_def processImage_start_def Let_def split: option.splits node.splits)

lemma fold_scanImage_backendRunning [simp]:
  "backendRunning (fold scanImage is s) = backendRunning s"
  by (induction "is" arbitrary: s) simp_all

lemma addImageToProcessingQueue_backendRunning [simp]:
  "backendRunning (fst (addImageToProcessingQueue i acc)) = backendRunning (fst acc)"
  by (simp add: addImageToProcessingQueue_def split: prod.splits option.splits node.splits)

lemma fold_addImageToProcessingQueue_backendRunning [simp]:
  "backendRunning (fst (fold addImageToProcessingQueue is acc)) = backendRunning (fst acc)"
  by (induction "is" arbitrary: acc) simp_all

lemma addImagesToProcessingQueue_backendRunning [simp]:
  "backendRunning (addImagesToProcessingQueue is s) = backendRunning s"
proof -
  obtain s1 n where f: "fold addImageToProcessingQueue is (s, 0) = (s1, n)"
    by (cases "fold addImageToProcessingQueue is (s, 0)")
  have "backendRunning s1 = backendRunning s"
    using fold_addImageToProcessingQueue_backendRunning [of "is" "(s, 0)"] f by simp
  then show ?thesis using f by (simp add: addImagesToProcessingQueue_def)
qed

lemma processBatch_backendRunning [simp]:
  "backendRunning (processBatch images k s) = backendRunning s"
  by (simp add: processBatch_def Let_def)

lemma scanImagesForModeration_backendRunning [simp]:
  "backendRunning (scanImagesForModeration s) = backendRunning s"
  by (simp add: scanImagesForModeration_def)

lemma queueImageForAnalysis_backendRunning [simp]:
  "backendRunning (queueImageForAnalysis i s) = backendRunning s"
  by (simp add: queueImageForAnalysis_def Let_def split: option.splits node.splits)

lemma fold_queueImageForAnalysis_backendRunning [simp]:
  "backendRunning (fold queueImageForAnalysis is s) = backendRunning s"
  by (induction "is" arbitrary: s) simp_all

lemma processImageBatch_backendRunning [simp]:
  "backendRunning (processImageBatch images k s) = backendRunning s"
  by (simp add: processImageBatch_def Let_def)

lemma checkBackendStatus_start_sets: "backendRunning (checkBackendStatus_start fetchThrows s)"
  by (simp add: checkBackendStatus_start_def Let_def)

lemma checkBackendStatus_resume_flag:
  "backendRunning (fst (checkBackendStatus_resume pingAnswered s))
     = (pingAnswered \<or> backendRunning s)"
  by (simp add: checkBackendStatus_resume_def Let_def)

lemma resume_backendRunning:
  "backendRunning (fst (processTextElement_resume i t outcome s)) = backendRunning s"
proof -
  obtain s1 r where res: "processTextElement_resume i t outcome s = (s1, r)"
    by (cases "processTextElement_resume i t outcome s")
  from resume_frame [OF res] obtain d n where "s1 = s\<lparr>document := d, nextNodeId := n\<rparr>"
    by blast
  then show ?thesis using res by simp
qed

lemma settleImage_backendRunning [simp]:
  "backendRunning (settleImage b k i ev s) = backendRunning s"
  using settleImage_ctl [of b k i ev s] by (auto simp: settlePromise_def)

lemma flag_cleared_only_by_message:
  assumes "backendRunning s" and "\<not> backendRunning (step ev s)"
  shows "ev = BackendStatusChanged False \<or> ev = BackgroundReply (Some False)"
proof (cases ev)
  case (Enqueue item)
  then show ?thesis using assms by simp
next
  case CallProcessNextBatch
  then show ?thesis using assms by simp
next
  case (TimerFires k)
  then show ?thesis using assms by (simp split: if_splits)
next
  case (FetchSettles b k outcome)
  have "backendRunning (step (FetchSettles b k outcome) s)"
  proof (cases "batches s ! b ! k")
    case (Pending w)
    show ?thesis
    proof (cases w)
      case (FetchText i t)
      obtain s1 r where res: "processTextElement_resume i t outcome s = (s1, r)"
        by (cases "processTextElement_resume i t outcome s")
      have "backendRunning s1" using resume_backendRunning [of i t outcome s] res assms(1) by simp
      then show ?thesis using Pending FetchText res assms(1) by (simp add: settlePromise_def)
    next
      case (ImageWork i)
      then show ?thesis using Pending assms(1) by simp
    qed
  next
    case (Fulfilled r)
    then show ?thesis using assms(1) by simp
  next
    case Rejected
    then show ?thesis using assms(1) by simp
  qed
  then show ?thesis using FetchSettles assms(2) by simp
next
  case (ImageSettles b k iev)
  have "backendRunning (step (ImageSettles b k iev) s)"
    using assms(1) by (simp split: promise.splits pending.splits)
  then show ?thesis using ImageSettles assms(2) by simp
next
  case (AllSettled b)
  then show ?thesis using assms by (simp add: allSettledCallback_def Let_def split: if_splits)
next
  case (ToggleProtection enabled)
  then show ?thesis using assms by (simp add: setEnabled_def Let_def split: if_splits)
next
  case (BackendStatusChanged running)
  then show ?thesis using assms by simp
next
  case (BackgroundReply reply)
  then show ?thesis using assms by (cases reply) (simp_all add: backgroundReply_def)
next
  case (BackendCheck thrown)
  then show ?thesis using assms by (simp add: checkBackendStatus_start_sets)
next
  case (PingSettles ok)
  then show ?thesis using assms by (simp add: checkBackendStatus_resume_flag split: if_splits)
next
  case ScanImages
  then show ?thesis using assms by simp
next
  case ScanAllImages
  then show ?thesis using assms by (simp add: applyImmediateBlurToAllImages_def)
next
  case (ScanTimerFires k)
  then show ?thesis using assms by (simp split: if_splits scan.splits)
qed

text \<open>
  Claim C8 as stated fails. With the flag recording the service as unavailable,
  \<open>processTextElement\<close> still saves the text and sends the analysis request; and a health
  check whose ping fails has set the flag, and leaves it set.
\<close>

theorem request_sent_while_flag_unavailable:
  "\<not> backendRunning backendDown
   \<and> snd (processTextElement_start 1 backendDown) = Inr ''hello world''
   \<and> backendRunning (checkBackendStatus_start False backendDown)
   \<and> backendRunning
        (fst (checkBackendStatus_resume False (checkBackendStatus_start False backendDown)))"
  by (simp add: backendDown_def initialState_def samplePage_def processTextElement_start_def
      trim_hello_plain Let_def blankElem_def checkBackendStatus_start_def
      checkBackendStatus_resume_flag)

text \<open>
  Claim C8, amended. The health check never clears the availability flag: it sets the
  flag when it starts and again when its ping is answered, and a ping that fails leaves
  the flag as it is. Of all the events of the content script, only a
  \<open>backendStatusChanged\<close> message that reports the service as not running and a reply of
  the background script with \<open>backendRunning\<close> false clear the flag. \<open>processTextElement\<close>
  does not read the flag: both of its parts are the same for either value, a connected
  element with at least five characters of text has its request sent also while the flag
  is cleared, and an answered request is decided by the verdict alone; the local lists
  are consulted only when the request fails.
\<close>

theorem availability_flag_not_consulted_for_text:
  "backendRunning (checkBackendStatus_start fetchThrows s)
   \<and> backendRunning (fst (checkBackendStatus_resume True s))
   \<and> backendRunning (fst (checkBackendStatus_resume False s)) = backendRunning s
   \<and> (\<forall>ev. backendRunning s \<and> \<not> backendRunning (step ev s) \<longrightarrow>
          ev = BackendStatusChanged False \<or> ev = BackgroundReply (Some False))
   \<and> fst (processTextElement_start i (s\<lparr>backendRunning := b\<rparr>))
       = (fst (processTextElement_start i s))\<lparr>backendRunning := b\<rparr>
   \<and> snd (processTextElement_start i (s\<lparr>backendRunning := b\<rparr>))
       = snd (processTextElement_start i s)
   \<and> fst (processTextElement_resume i t outcome (s\<lparr>backendRunning := b\<rparr>))
       = (fst (processTextElement_resume i t outcome s))\<lparr>backendRunning := b\<rparr>
   \<and> snd (processTextElement_resume i t outcome (s\<lparr>backendRunning := b\<rparr>))
       = snd (processTextElement_resume i t outcome s)
   \<and> (\<forall>v. processTextElement_resume i t (Response v) s
          = (if action v = ''remove''
             then (filterElement i (filteredTextFor t) (reasons v) s,
                   Filtered (action v) (reasons v))
             else (s, Kept)))
   \<and> (findNode i (document s) = Some (Element e ks) \<and> 5 \<le> length (trim (textOf ks)) \<longrightarrow>
        snd (processTextElement_start i (s\<lparr>backendRunning := False\<rparr>)) = Inr (trim (textOf ks)))"
proof -
  have a: "backendRunning (checkBackendStatus_start fetchThrows s)
     \<and> backendRunning (fst (checkBackendStatus_resume True s))
     \<and> backendRunning (fst (checkBackendStatus_resume False s)) = backendRunning s"
    by (simp add: checkBackendStatus_start_sets checkBackendStatus_resume_flag)
  have m: "\<forall>ev. backendRunning s \<and> \<not> backendRunning (step ev s) \<longrightarrow>
          ev = BackendStatusChanged False \<or> ev = BackgroundReply (Some False)"
    using flag_cleared_only_by_message by blast
  have b: "fst (processTextElement_start i (s\<lparr>backendRunning := b\<rparr>))
       = (fst (processTextElement_start i s))\<lparr>backendRunning := b\<rparr>
     \<and> snd (processTextElement_start i (s\<lparr>backendRunning := b\<rparr>))
       = snd (processTextElement_start i s)"
    by (simp add: processTextElement_start_def Let_def split: option.splits)
  have r: "fst (processTextElement_resume i t outcome (s\<lparr>backendRunning := b\<rparr>))
       = (fst (processTextElement_resume i t outcome s))\<lparr>backendRunning := b\<rparr>
     \<and> snd (processTextElement_resume i t outcome (s\<lparr>backendRunning := b\<rparr>))
       = snd (processTextElement_resume i t outcome s)"
    by (simp add: processTextElement_resume_def filterElement_def newNodeId_def Let_def
        split: fetch_outcome.splits)
  have c: "\<forall>v. processTextElement_resume i t (Response v) s
          = (if action v = ''remove''
             then (filterElement i (filteredTextFor t) (reasons v) s,
                   Filtered (action v) (reasons v))
             else (s, Kept))"
    by (simp add: processTextElement_resume_def)
  have d: "findNode i (document s) = Some (Element e ks) \<and> 5 \<le> length (trim (textOf ks)) \<longrightarrow>
        snd (processTextElement_start i (s\<lparr>backendRunning := False\<rparr>)) = Inr (trim (textOf ks))"
  proof
    assume h: "findNode i (document s) = Some (Element e ks) \<and> 5 \<le> length (trim (textOf ks))"
    then have "findNode i (document (s\<lparr>backendRunning := False\<rparr>)) = Some (Element e ks)" by simp
    from processTextElement_start_long [OF this] h
    show "snd (processTextElement_start i (s\<lparr>backendRunning := False\<rparr>)) = Inr (trim (textOf ks))"
      by simp
  qed
  show ?thesis using a m b r c d by blast
qed

theorem availability_flag_not_consulted_for_text_witness:
  "findNode 1 (document backendDown)
     = Some (Element (blankElem 1 ''P'' (0, 0)) [TextNode ''hello world''])
   \<and> 5 \<le> length (trim (textOf [TextNode ''hello world'']))
   \<and> snd (processTextElement_start 1 (backendDown\<lparr>backendRunning := False\<rparr>)) = Inr ''hello world''
   \<and> backendRunning (checkBackendStatus_start False backendDown)
   \<and> backendRunning (initialState (samplePage ''hello world''))
   \<and> \<not> backendRunning (step (BackendStatusChanged False) (initialState (samplePage ''hello world'')))
   \<and> \<not> backendRunning (step (BackgroundReply (Some False)) (initialState (samplePage ''hello world'')))"
proof -
  have f: "findNode 1 (document backendDown)
     = Some (Element (blankElem 1 ''P'' (0, 0)) [TextNode ''hello world''])"
    by (simp add: backendDown_def initialState_def samplePage_def blankElem_def)
  have l: "5 \<le> length (trim (textOf [TextNode ''hello world'']))"
    by (simp add: trim_hello_plain)
  note t = availability_flag_not_consulted_for_text
      [where s = backendDown and i = 1 and e = "blankElem 1 ''P'' (0, 0)"
         and ks = "[TextNode ''hello world'']" and fetchThrows = False and b = False
         and t = "[]" and outcome = RequestFailed]
  from t f l have "snd (processTextElement_start 1 (backendDown\<lparr>backendRunning := False\<rparr>))
      = Inr (trim (textOf [TextNode ''hello world'']))" by blast
  then have a: "snd (processTextElement_start 1 (backendDown\<lparr>backendRunning := False\<rparr>))
      = Inr ''hello world''" by (simp only: textOf.simps append_Nil2 trim_hello_plain)
  from t have b: "backendRunning (checkBackendStatus_start False backendDown)" by blast
  note u = availability_flag_not_consulted_for_text
      [where s = "initialState (samplePage ''hello world'')" and i = 1
         and e = "blankElem 1 ''P'' (0, 0)" and ks = "[TextNode ''hello world'']"
         and fetchThrows = False and b = False and t = "[]" and outcome = RequestFailed]
  have g: "backendRunning (initialState (samplePage ''hello world''))"
    by (simp add: initialState_def)
  have h1: "\<not> backendRunning (step (BackendStatusChanged False)
                 (initialState (samplePage ''hello world'')))"
    by simp
  have h2: "\<not> backendRunning (step (BackgroundReply (Some False))
                 (initialState (samplePage ''hello world'')))"
    by (simp add: backgroundReply_def)
  from u g h1 have "BackendStatusChanged False = BackendStatusChanged False
      \<or> BackendStatusChanged False = BackgroundReply (Some False)" by blast
  show ?thesis using f l a b g h1 h2 by blast
qed

section \<open>Small images\<close>

text \<open>
  Claim C9, evaluated where the code departs from it. An image with natural width 40
  (and a source) is pushed on the queue by \<open>addImagesToProcessingQueue\<close>; a scan by
  \<open>scanImagesForModeration\<close> ends with that image dispatched in a batch, where the call of
  the image analysis is made for it. The sibling path \<open>applyImmediateBlurToAllImages\<close>
  skips the same image.
\<close>

theorem small_image_is_enqueued:
  "processingQueue (fst (fold addImageToProcessingQueue [1] (initialState smallImagePage, 0)))
     = [\<lparr>itemType = ''image'', element = 1, priority = None\<rparr>]
   \<and> batches (scanImagesForModeration (initialState smallImagePage)) = [[Rejected]]
   \<and> processingQueue (applyImmediateBlurToAllImages (initialState smallImagePage)) = []
   \<and> batches (applyImmediateBlurToAllImages (initialState smallImagePage)) = []"
  by (simp add: smallImagePage_def sampleImage_def initialState_def blankElem_def
      addImageToProcessingQueue_def hasClass_def
      EXCLUSION_CLASS_def scanImagesForModeration_def processBatch_def querySelectorAll_def
      scanImage_def processImage_start_def addImagesToProcessingQueue_def classListAdd_def
      setAdd_def processNextBatch_def BATCH_SIZE_def processElement_def
      applyImmediateBlurToAllImages_def processImageBatch_def queueImageForAnalysis_def Let_def)

lemma queueImageForAnalysis_small:
  "findNode i (document s) = Some (Element img ks) \<Longrightarrow> naturalWidth img < 50
   \<Longrightarrow> queueImageForAnalysis i s = s"
  by (simp add: queueImageForAnalysis_def)

section \<open>Restoring the page\<close>

subsection \<open>Locating an element\<close>

lemma findNode_locate: "findNode i doc = map_option snd (locate i doc)"
  by (induction i doc rule: locate.induct) (auto split: option.splits)

lemma allIds_simps [simp]:
  "allIds [] = []"
  "allIds (TextNode t # ns) = allIds ns"
  "allIds (Element e ks # ns) = nodeId e # allIds ks @ allIds ns"
  by (simp_all add: allIds_def)

lemma allElems_append [simp]: "allElems (xs @ ys) = allElems xs @ allElems ys"
  by (induction xs rule: allElems.induct) simp_all

lemma allIds_append [simp]: "allIds (xs @ ys) = allIds xs @ allIds ys"
  by (simp add: allIds_def)

lemma locate_None_iff: "locate i doc = None \<longleftrightarrow> i \<notin> set (allIds doc)"
  by (induction i doc rule: locate.induct) (auto split: option.splits)

lemma locate_sub:
  "locate i doc = Some (as, n) \<Longrightarrow>
     set as \<subseteq> set (allElems doc) \<and> set (allElems [n]) \<subseteq> set (allElems doc)
     \<and> isElementWithId i n"
proof (induction i doc arbitrary: as n rule: locate.induct)
  case (1 i)
  then show ?case by simp
next
  case (2 i t ns)
  then show ?case by auto
next
  case (3 i e ks ns)
  show ?case
  proof (cases "nodeId e = i")
    case True
    with 3 show ?thesis by auto
  next
    case False
    show ?thesis
    proof (cases "locate i ks")
      case None
      with 3 False show ?thesis by auto
    next
      case (Some p)
      obtain as' n' where p: "p = (as', n')" by (cases p)
      from 3(1) [OF False, of as' n'] Some p
      have "set as' \<subseteq> set (allElems ks) \<and> set (allElems [n']) \<subseteq> set (allElems ks)
            \<and> isElementWithId i n'" by simp
      with 3(3) False Some p show ?thesis by auto
    qed
  qed
qed

lemma elems_unique:
  "distinct (allIds doc) \<Longrightarrow> a \<in> set (allElems doc) \<Longrightarrow> b \<in> set (allElems doc)
   \<Longrightarrow> nodeId a = nodeId b \<Longrightarrow> a = b"
  unfolding allIds_def by (meson distinct_map inj_on_def)

lemma locate_updateNode_same:
  "locate i doc = Some (as, n) \<Longrightarrow> isElementWithId i (g n)
   \<Longrightarrow> locate i (updateNode i g doc) = Some (as, g n)"
proof (induction i doc arbitrary: as n rule: locate.induct)
  case (1 i)
  then show ?case by simp
next
  case (2 i t ns)
  then show ?case by simp
next
  case (3 i e ks ns)
  show ?case
  proof (cases "nodeId e = i")
    case True
    with 3(3,4) show ?thesis by (cases "g (Element e ks)") auto
  next
    case False
    show ?thesis
    proof (cases "locate i ks")
      case None
      then have "updateNode i g ks = ks"
        by (simp add: updateNode_absent findNode_locate)
      with 3 False None show ?thesis by simp
    next
      case (Some p)
      obtain as' n' where p: "p = (as', n')" by (cases p)
      with 3(3) False Some have n: "n = n'" "as = e # as'" by simp_all
      from 3(1) [OF False, of as' n'] Some p 3(4) n
      have "locate i (updateNode i g ks) = Some (as', g n')" by simp
      with False n show ?thesis by simp
    qed
  qed
qed

lemma locate_insertAfter: "locate i (insertAfter i new doc) = locate i doc"
  by (induction i new doc rule: insertAfter.induct) (auto split: option.splits)

lemma allIds_removeNodes_subset: "set (allIds (removeNodes P doc)) \<subseteq> set (allIds doc)"
  by (induction P doc rule: removeNodes.induct) auto

lemma locate_removeNodes:
  "locate i doc = Some (as, Element e cs) \<Longrightarrow> \<forall>a \<in> set as. \<not> P a \<Longrightarrow> \<not> P e
   \<Longrightarrow> locate i (removeNodes P doc) = Some (as, Element e (removeNodes P cs))"
proof (induction i doc arbitrary: as rule: locate.induct)
  case (1 i)
  then show ?case by simp
next
  case (2 i t ns)
  then show ?case by simp
next
  case (3 i e' ks ns)
  show ?case
  proof (cases "nodeId e' = i")
    case True
    with 3(3,5) show ?thesis by auto
  next
    case False
    show ?thesis
    proof (cases "locate i ks")
      case None
      then have "i \<notin> set (allIds (removeNodes P ks))"
        using allIds_removeNodes_subset [of P ks] by (auto simp: locate_None_iff)
      then have "locate i (removeNodes P ks) = None" by (simp add: locate_None_iff)
      with 3 False None show ?thesis by simp
    next
      case (Some p)
      obtain as' n' where p: "p = (as', n')" by (cases p)
      with 3(3) False Some have n: "n' = Element e cs" "as = e' # as'" by simp_all
      from 3(1) [OF False, of as'] Some p n 3(4,5)
      have "locate i (removeNodes P ks) = Some (as', Element e (removeNodes P cs))" by simp
      moreover have "\<not> P e'" using 3(4) n by simp
      ultimately show ?thesis using False n by simp
    qed
  qed
qed

lemma allIds_Cons: "allIds (n # ns) = allIds [n] @ allIds ns"
  by (cases n) simp_all

lemma locate_Cons:
  "locate i (n # ns) = (case locate i [n] of Some r \<Rightarrow> Some r | None \<Rightarrow> locate i ns)"
  by (cases n) (auto split: option.splits)

lemma subseq_distinct: "subseq xs ys \<Longrightarrow> distinct ys \<Longrightarrow> distinct xs"
  using set_subseqs_eq subseqs_distinctD by blast

lemma subseq_updateNode:
  "\<forall>n. subseq (allIds [g n]) (allIds [n]) \<Longrightarrow> subseq (allIds (updateNode j g doc)) (allIds doc)"
proof (induction j g doc rule: updateNode.induct)
  case (1 i g)
  then show ?case by simp
next
  case (2 i g t ns)
  then show ?case by simp
next
  case (3 i g e ks ns)
  show ?case
  proof (cases "nodeId e = i")
    case True
    have "subseq (allIds [g (Element e ks)]) (allIds [Element e ks])" using 3(3) by blast
    then have "subseq (allIds [g (Element e ks)] @ allIds (updateNode i g ns))
                 (allIds [Element e ks] @ allIds ns)"
      by (rule list_emb_append_mono) (rule 3(2) [OF 3(3)])
    then show ?thesis using True by (simp add: allIds_Cons [of "g (Element e ks)" "updateNode i g ns"])
  next
    case False
    have "subseq (allIds (updateNode i g ks) @ allIds (updateNode i g ns)) (allIds ks @ allIds ns)"
      by (rule list_emb_append_mono [OF 3(1) [OF False 3(3)] 3(2) [OF 3(3)]])
    then show ?thesis using False by simp
  qed
qed

lemma subseq_removeNodes: "subseq (allIds (removeNodes P doc)) (allIds doc)"
proof (induction P doc rule: removeNodes.induct)
  case (1 P)
  then show ?case by simp
next
  case (2 P t ns)
  then show ?case by simp
next
  case (3 P e ks ns)
  show ?case
  proof (cases "P e")
    case True
    have "subseq (allIds (removeNodes P ns)) ((nodeId e # allIds ks) @ allIds ns)"
      by (rule list_emb_append2) (rule 3(1) [OF True])
    then show ?thesis using True by simp
  next
    case False
    have "subseq (allIds (removeNodes P ks) @ allIds (removeNodes P ns)) (allIds ks @ allIds ns)"
      by (rule list_emb_append_mono [OF 3(2) [OF False] 3(3) [OF False]])
    then show ?thesis using False by simp
  qed
qed

lemma subseq_set: "subseq xs ys \<Longrightarrow> set xs \<subseteq> set ys"
  by (auto dest: list_emb_set)

lemma set_allIds_updateNode:
  "\<forall>n. subseq (allIds [g n]) (allIds [n]) \<Longrightarrow> set (allIds (updateNode j g doc)) \<subseteq> set (allIds doc)"
  by (rule subseq_set) (rule subseq_updateNode)

lemma locate_updateNode_other:
  assumes "locate i doc = Some (as, n0)" and "updateNode j g [n0] = [n0]" and "j \<noteq> i"
    and "j \<notin> nodeId ` set as" and "\<forall>n. subseq (allIds [g n]) (allIds [n])"
  shows "locate i (updateNode j g doc) = Some (as, n0)"
  using assms
proof (induction i doc arbitrary: as rule: locate.induct)
  case (1 i)
  then show ?case by simp
next
  case (2 i t ns)
  then show ?case by simp
next
  case (3 i e ks ns)
  note G = 3(7)
  show ?case
  proof (cases "nodeId e = i")
    case True
    with 3(3) have n0: "n0 = Element e ks" "as = []" by simp_all
    from 3(4) n0 True 3(5) have "updateNode j g ks = ks" by simp
    with True 3(5) n0 show ?thesis by simp
  next
    case False
    show ?thesis
    proof (cases "locate i ks")
      case (Some p)
      obtain as' n' where p: "p = (as', n')" by (cases p)
      with 3(3) False Some have n: "n' = n0" "as = e # as'" by simp_all
      then have ej: "nodeId e \<noteq> j" using 3(6) by auto
      have "j \<notin> nodeId ` set as'" using 3(6) n by auto
      from 3(1) [OF False _ 3(4) 3(5) this G] Some p n
      have "locate i (updateNode j g ks) = Some (as', n0)" by simp
      with False ej n show ?thesis by simp
    next
      case None
      with 3(3) False have ns: "locate i ns = Some (as, n0)" by simp
      from 3(2) [OF False None ns 3(4) 3(5) 3(6) G]
      have rest: "locate i (updateNode j g ns) = Some (as, n0)" .
      have notin: "i \<notin> set (allIds [Element e ks])"
        using None False by (auto simp: locate_None_iff)
      show ?thesis
      proof (cases "nodeId e = j")
        case True
        have "subseq (allIds [g (Element e ks)]) (allIds [Element e ks])"
          using G by (rule spec)
        then have "set (allIds [g (Element e ks)]) \<subseteq> set (allIds [Element e ks])"
          by (rule subseq_set)
        then have "locate i [g (Element e ks)] = None"
          using notin by (auto simp: locate_None_iff)
        then show ?thesis
          using True rest by (simp add: locate_Cons [of i "g (Element e ks)" "updateNode j g ns"])
      next
        case ne: False
        have "set (allIds (updateNode j g ks)) \<subseteq> set (allIds ks)"
          by (rule set_allIds_updateNode [OF G])
        then have "locate i (updateNode j g ks) = None"
          using None by (auto simp: locate_None_iff)
        then show ?thesis using ne False rest by simp
      qed
    qed
  qed
qed

lemma allIds_updateNode_onElem:
  "\<forall>x. nodeId (f x) = nodeId x \<Longrightarrow> allIds (updateNode j (onElem f) doc) = allIds doc"
  by (induction j "onElem f" doc rule: updateNode.induct) auto

lemma locate_updateNode_onElem:
  assumes "locate i doc = Some (as, Element e cs)" and "updateNode j (onElem f) cs = cs"
    and "\<forall>x. nodeId (f x) = nodeId x"
  shows "\<exists>as' e'. locate i (updateNode j (onElem f) doc) = Some (as', Element e' cs)
           \<and> (e' = e \<or> e' = f e) \<and> list_all2 (\<lambda>a a'. a' = a \<or> a' = f a) as as'"
  using assms
proof (induction i doc arbitrary: as rule: locate.induct)
  case (1 i)
  then show ?case by simp
next
  case (2 i t ns)
  then show ?case by simp
next
  case (3 i e1 ks ns)
  note F = 3(5)
  show ?case
  proof (cases "nodeId e1 = i")
    case True
    with 3(3) have n0: "e1 = e" "ks = cs" "as = []" by simp_all
    show ?thesis using True n0 3(4) F by auto
  next
    case False
    show ?thesis
    proof (cases "locate i ks")
      case (Some p)
      obtain as0 n' where p: "p = (as0, n')" by (cases p)
      with 3(3) False Some have n: "n' = Element e cs" "as = e1 # as0" by simp_all
      show ?thesis
      proof (cases "nodeId e1 = j")
        case True
        have "list_all2 (\<lambda>a a'. a' = a \<or> a' = f a) as0 as0"
          by (simp add: list_all2_same)
        then show ?thesis using True False Some p n F by auto
      next
        case ne: False
        from 3(1) [OF False _ 3(4) F, of as0] Some p n
        obtain as' e' where "locate i (updateNode j (onElem f) ks) = Some (as', Element e' cs)"
          "e' = e \<or> e' = f e" "list_all2 (\<lambda>a a'. a' = a \<or> a' = f a) as0 as'" by auto
        then show ?thesis using ne False n by auto
      qed
    next
      case None
      with 3(3) False have ns: "locate i ns = Some (as, Element e cs)" by simp
      from 3(2) [OF False None ns 3(4) F]
      obtain as' e' where rest: "locate i (updateNode j (onElem f) ns) = Some (as', Element e' cs)"
          "e' = e \<or> e' = f e" "list_all2 (\<lambda>a a'. a' = a \<or> a' = f a) as as'" by auto
      have "locate i (updateNode j (onElem f) ks) = None"
        using None by (simp add: locate_None_iff allIds_updateNode_onElem [OF F])
      then show ?thesis using rest False F None by auto
    qed
  qed
qed

subsection \<open>Sweeps that remove nodes\<close>

lemma removeNodes_removeNodes:
  "removeNodes P (removeNodes Q doc) = removeNodes (\<lambda>x. Q x \<or> P x) doc"
  by (induction Q doc rule: removeNodes.induct) auto

lemma removeNodes_False: "removeNodes (\<lambda>x. False) doc = doc"
  by (induction "\<lambda>x::elem. False" doc rule: removeNodes.induct) auto

lemma fold_removeChild:
  "fold removeChild js doc = removeNodes (\<lambda>x. nodeId x \<in> set js) doc"
proof (induction js arbitrary: doc)
  case Nil
  then show ?case by (simp add: removeNodes_False)
next
  case (Cons j js)
  have l: "(\<lambda>x. nodeId x = j \<or> nodeId x \<in> set js) = (\<lambda>x. nodeId x \<in> set (j # js))"
    by auto
  have "fold removeChild (j # js) doc = fold removeChild js (removeChild j doc)" by simp
  also have "\<dots> = removeNodes (\<lambda>x. nodeId x \<in> set js) (removeChild j doc)" by (rule Cons)
  also have "\<dots> = removeNodes (\<lambda>x. nodeId x = j \<or> nodeId x \<in> set js) doc"
    by (simp add: removeChild_def removeNodes_removeNodes)
  finally show ?case unfolding l .
qed

lemma allElems_removeNodes:
  "set (allElems (removeNodes P doc)) \<subseteq> {x \<in> set (allElems doc). \<not> P x}"
  by (induction P doc rule: removeNodes.induct) auto

lemma removed_by_selector:
  "\<forall>x \<in> set (allElems (forEachSelected sel removeChild doc)). \<not> sel x"
proof
  fix x assume "x \<in> set (allElems (forEachSelected sel removeChild doc))"
  then have x: "x \<in> set (allElems doc)" "nodeId x \<notin> set (querySelectorAll sel doc)"
    using allElems_removeNodes [of "\<lambda>x. nodeId x \<in> set (querySelectorAll sel doc)" doc]
    by (auto simp: forEachSelected_def fold_removeChild)
  then show "\<not> sel x" by (auto simp: querySelectorAll_def)
qed

lemma kept_by_selector:
  "set (allElems (forEachSelected sel removeChild doc)) \<subseteq> set (allElems doc)"
  using allElems_removeNodes [of "\<lambda>x. nodeId x \<in> set (querySelectorAll sel doc)" doc]
  by (auto simp: forEachSelected_def fold_removeChild)

subsection \<open>Properties of every element of the page\<close>

lemma allElems_Cons: "allElems (n # ns) = allElems [n] @ allElems ns"
  by (cases n) simp_all

lemma everyElem_updateNode:
  "\<forall>x \<in> set (allElems doc). Q x
   \<Longrightarrow> \<forall>n. (\<forall>x \<in> set (allElems [n]). Q x) \<longrightarrow> (\<forall>x \<in> set (allElems [g n]). Q x)
   \<Longrightarrow> \<forall>x \<in> set (allElems (updateNode j g doc)). Q x"
proof (induction j g doc rule: updateNode.induct)
  case (1 i g)
  then show ?case by simp
next
  case (2 i g t ns)
  then show ?case by simp
next
  case (3 i g e ks ns)
  have ns: "\<forall>x \<in> set (allElems (updateNode i g ns)). Q x"
    using 3(2) 3(3,4) by simp
  show ?case
  proof (cases "nodeId e = i")
    case True
    have "\<forall>x \<in> set (allElems [Element e ks]). Q x" using 3(3) by simp
    with 3(4) have "\<forall>x \<in> set (allElems [g (Element e ks)]). Q x" by blast
    then show ?thesis
      using True ns by (auto simp: allElems_Cons [of "g (Element e ks)" "updateNode i g ns"])
  next
    case False
    have "\<forall>x \<in> set (allElems (updateNode i g ks)). Q x"
      using 3(1) [OF False] 3(3,4) by simp
    then show ?thesis using False ns 3(3) by auto
  qed
qed

lemma everyElem_replaceNode:
  "\<forall>x \<in> set (allElems doc). Q x \<Longrightarrow> \<forall>x \<in> set (allElems [n]). Q x
   \<Longrightarrow> \<forall>x \<in> set (allElems (replaceNode w n doc)). Q x"
proof (induction w n doc rule: replaceNode.induct)
  case (1 w new)
  then show ?case by simp
next
  case (2 w new t ns)
  then show ?case by simp
next
  case (3 w new e ks ns)
  show ?case
  proof (cases "nodeId e = w")
    case True
    then show ?thesis using 3(3,4) by (auto simp: allElems_Cons [of new ns])
  next
    case False
    have ks: "\<forall>x \<in> set (allElems (replaceNode w new ks)). Q x"
      using 3(1) [OF False] 3(3,4) by simp
    have ns: "\<forall>x \<in> set (allElems (replaceNode w new ns)). Q x"
      using 3(2) [OF False] 3(3,4) by simp
    show ?thesis using False ks ns 3(3) by auto
  qed
qed

lemma parentOf_elem: "parentOf j doc = Some p \<Longrightarrow> p \<in> set (allElems doc)"
  by (induction j doc rule: parentOf.induct) (auto split: if_splits option.splits)

lemma findNode_elems: "findNode i doc = Some n \<Longrightarrow> set (allElems [n]) \<subseteq> set (allElems doc)"
  using locate_sub [of i doc] by (auto simp: findNode_locate)

subsection \<open>Inserting the indicator\<close>

lemma fold_max_ge: "a \<le> fold max xs (a::nat)"
  by (induction xs arbitrary: a) (auto intro: order_trans [OF max.cobounded2])

lemma fold_max_mem: "x \<in> set xs \<Longrightarrow> x \<le> fold max xs (a::nat)"
proof (induction xs arbitrary: a)
  case Nil
  then show ?case by simp
next
  case (Cons y ys)
  show ?case
  proof (cases "x = y")
    case True
    have "max y a \<le> fold max ys (max y a)" by (rule fold_max_ge)
    then show ?thesis using True by simp
  next
    case False
    with Cons show ?thesis by simp
  qed
qed

lemma lt_freshId: "x \<in> set (allIds doc) \<Longrightarrow> x < freshId doc"
  unfolding freshId_def using fold_max_mem [of x "allIds doc" 0] by simp

lemma insertAfter_absent: "i \<notin> set (allIds doc) \<Longrightarrow> insertAfter i new doc = doc"
  by (induction i new doc rule: insertAfter.induct) auto

lemma set_allIds_insertAfter:
  "set (allIds (insertAfter i new doc)) \<subseteq> set (allIds doc) \<union> set (allIds [new])"
proof (induction i new doc rule: insertAfter.induct)
  case (1 i new)
  then show ?case by simp
next
  case (2 i new t ns)
  then show ?case by simp
next
  case (3 i new e ks ns)
  show ?case
  proof (cases "nodeId e = i")
    case True
    then show ?thesis by (auto simp: allIds_Cons [of new ns])
  next
    case False
    with 3 show ?thesis by auto
  qed
qed

lemma distinct_insertAfter:
  "distinct (allIds doc) \<Longrightarrow> distinct (allIds [new])
   \<Longrightarrow> set (allIds [new]) \<inter> set (allIds doc) = {}
   \<Longrightarrow> distinct (allIds (insertAfter i new doc))"
proof (induction i new doc rule: insertAfter.induct)
  case (1 i new)
  then show ?case by simp
next
  case (2 i new t ns)
  then show ?case by simp
next
  case (3 i new e ks ns)
  show ?case
  proof (cases "nodeId e = i")
    case True
    then show ?thesis using 3(3,4,5) by (auto simp: allIds_Cons [of new ns])
  next
    case False
    have dk: "distinct (allIds (insertAfter i new ks))"
      using 3(1) [OF False] 3(3,4,5) by auto
    have dn: "distinct (allIds (insertAfter i new ns))"
      using 3(2) [OF False] 3(3,4,5) by auto
    have sk: "set (allIds (insertAfter i new ks)) \<subseteq> set (allIds ks) \<union> set (allIds [new])"
      by (rule set_allIds_insertAfter)
    have sn: "set (allIds (insertAfter i new ns)) \<subseteq> set (allIds ns) \<union> set (allIds [new])"
      by (rule set_allIds_insertAfter)
    have e: "nodeId e \<notin> set (allIds [new])" "nodeId e \<notin> set (allIds ks)"
      "nodeId e \<notin> set (allIds ns)" "set (allIds ks) \<inter> set (allIds ns) = {}"
      using 3(3,5) by auto
    show ?thesis
    proof (cases "i \<in> set (allIds ks)")
      case True
      then have "i \<notin> set (allIds ns)" using e(4) by auto
      then have "insertAfter i new ns = ns" by (rule insertAfter_absent)
      then show ?thesis using False dk sk e 3(3,5) by auto
    next
      case notk: False
      then have "insertAfter i new ks = ks" by (rule insertAfter_absent)
      then show ?thesis using False dn sn e 3(3,5) by auto
    qed
  qed
qed

lemma allIds_indicatorNode: "allIds [indicatorNode f r act rs] = [f, Suc f, Suc (Suc f)]"
  by (simp add: indicatorNode_def blankElem_def)

lemma allElems_indicatorNode:
  "x \<in> set (allElems [indicatorNode f r act rs]) \<Longrightarrow> \<not> hasClass ''socioio-image-wrapper'' x"
  by (auto simp: indicatorNode_def blankElem_def hasClass_def INDICATOR_CLASS_def)

subsection \<open>The page after an element was filtered\<close>

lemma subseq_setTextContent: "subseq (allIds [setTextContent t n]) (allIds [n])"
  by (cases n) auto

lemma subseq_onElem: "\<forall>x. nodeId (f x) = nodeId x \<Longrightarrow> subseq (allIds [onElem f n]) (allIds [n])"
  by (cases n) auto

lemma nodeId_setAttribute [simp]: "nodeId (setAttribute k v e) = nodeId e"
  by (simp add: setAttribute_def)

lemma nodeId_removeAttribute [simp]: "nodeId (removeAttribute k e) = nodeId e"
  by (simp add: removeAttribute_def)

lemma nodeId_classListAdd [simp]: "nodeId (classListAdd c e) = nodeId e"
  by (simp add: classListAdd_def)

lemma nodeId_classListRemove [simp]: "nodeId (classListRemove c e) = nodeId e"
  by (simp add: classListRemove_def)

lemma nodeId_setStyle [simp]: "nodeId (setStyle k v e) = nodeId e"
  by (simp add: setStyle_def)

lemma hasClass_setAttribute [simp]: "hasClass c (setAttribute k v e) = hasClass c e"
  by (simp add: hasClass_def setAttribute_def)

lemma hasClass_removeAttribute [simp]: "hasClass c (removeAttribute k e) = hasClass c e"
  by (simp add: hasClass_def removeAttribute_def)

lemma hasClass_setStyle [simp]: "hasClass c (setStyle k v e) = hasClass c e"
  by (simp add: hasClass_def setStyle_def)

lemma hasClass_classListAdd [simp]: "hasClass c (classListAdd d e) = (c = d \<or> hasClass c e)"
  by (auto simp: hasClass_def classListAdd_def)

lemma hasClass_classListRemove [simp]:
  "hasClass c (classListRemove d e) = (c \<noteq> d \<and> hasClass c e)"
  by (auto simp: hasClass_def classListRemove_def)

lemma map_of_assocSet_other: "k' \<noteq> k \<Longrightarrow> map_of (assocSet k v ps) k' = map_of ps k'"
  by (induction ps) auto

lemma map_of_assocDel_other: "k' \<noteq> k \<Longrightarrow> map_of (assocDel k ps) k' = map_of ps k'"
  by (induction ps) (auto simp: assocDel_def)

lemma map_of_assocDel_same: "map_of (assocDel k ps) k = None"
  by (induction ps) (auto simp: assocDel_def)

lemma getAttribute_simps [simp]:
  "k' \<noteq> k \<Longrightarrow> getAttribute k' (setAttribute k v e) = getAttribute k' e"
  "k' \<noteq> k \<Longrightarrow> getAttribute k' (removeAttribute k e) = getAttribute k' e"
  "getAttribute k (removeAttribute k e) = None"
  "getAttribute k (classListAdd c e) = getAttribute k e"
  "getAttribute k (classListRemove c e) = getAttribute k e"
  "getAttribute k (setStyle p v e) = getAttribute k e"
  by (simp_all add: getAttribute_def setAttribute_def removeAttribute_def classListAdd_def
      classListRemove_def setStyle_def map_of_assocSet_other map_of_assocDel_other
      map_of_assocDel_same)

lemma hasClass_src_update [simp]: "hasClass c (e\<lparr>src := v\<rparr>) = hasClass c e"
  by (simp add: hasClass_def)

lemma getAttribute_src_update [simp]: "getAttribute k (e\<lparr>src := v\<rparr>) = getAttribute k e"
  by (simp add: getAttribute_def)

lemma setTextContent_Element: "setTextContent t (Element e ks) = Element e (textChildren t)"
  by (simp add: textChildren_def)

lemma textChildren_fixed [simp]:
  "updateNode j g (textChildren t) = textChildren t"
  "removeNodes P (textChildren t) = textChildren t"
  "allIds (textChildren t) = []"
  by (simp_all add: textChildren_def)

lemma filtered_page:
  fixes t :: string and doc :: "node list" and e :: elem and i :: nat
  assumes L: "locate i doc = Some (as, Element e ks)"
    and D: "distinct (allIds doc)"
    and A: "\<forall>a \<in> set as. \<not> hasClass INDICATOR_CLASS a" and E: "\<not> hasClass INDICATOR_CLASS e"
  defines "doc1 \<equiv> updateNode i (onElem (setAttribute ''data-original-text'' t)) doc"
  defines "e3 \<equiv> classListAdd ''socioio-filtered-text'' (setAttribute ''data-original-text'' t e)"
  assumes N: "\<forall>x \<in> set (allIds doc1). x < new"
  shows "locate i (applyFilteredText new i ft rs doc1) = Some (as, Element e3 (textChildren ft))"
    and "distinct (allIds (applyFilteredText new i ft rs doc1))"
proof -
  let ?d2 = "updateNode i (setTextContent ft) doc1"
  let ?d3 = "updateNode i (onElem (classListAdd ''socioio-filtered-text'')) ?d2"
  let ?P = "\<lambda>x. hasClass INDICATOR_CLASS x \<and> near x (rectOf i ?d3)"
  let ?d4 = "removeNodes ?P ?d3"
  let ?new = "indicatorNode new (rectOf i ?d3) ''remove'' rs"
  have idn: "nodeId e = i" using locate_sub [OF L] by simp
  have l1: "locate i doc1 = Some (as, Element (setAttribute ''data-original-text'' t e) ks)"
    unfolding doc1_def
    using locate_updateNode_same [OF L, of "onElem (setAttribute ''data-original-text'' t)"] idn
    by simp
  have l2: "locate i ?d2
      = Some (as, Element (setAttribute ''data-original-text'' t e) (textChildren ft))"
    using locate_updateNode_same [OF l1, of "setTextContent ft"] idn
    by (simp add: textChildren_def)
  have l3: "locate i ?d3 = Some (as, Element e3 (textChildren ft))"
    using locate_updateNode_same [OF l2, of "onElem (classListAdd ''socioio-filtered-text'')"] idn
    by (simp add: e3_def)
  have ne: "INDICATOR_CLASS \<noteq> ''socioio-filtered-text''" by (simp add: INDICATOR_CLASS_def)
  have "\<not> ?P e3" using E ne by (simp add: e3_def)
  moreover have "\<forall>a \<in> set as. \<not> ?P a" using A by simp
  ultimately have l4: "locate i ?d4 = Some (as, Element e3 (removeNodes ?P (textChildren ft)))"
    using locate_removeNodes [OF l3, of ?P] by blast
  have eq: "applyFilteredText new i ft rs doc1 = insertAfter i ?new ?d4"
    by (simp add: applyFilteredText_def addModerationIndicator_def Let_def)
  show "locate i (applyFilteredText new i ft rs doc1) = Some (as, Element e3 (textChildren ft))"
    unfolding eq locate_insertAfter using l4 by simp
  have s1: "subseq (allIds doc1) (allIds doc)"
    unfolding doc1_def by (rule subseq_updateNode) (simp add: subseq_onElem)
  have s2: "subseq (allIds ?d2) (allIds doc1)"
    by (rule subseq_updateNode) (simp add: subseq_setTextContent)
  have s3: "subseq (allIds ?d3) (allIds ?d2)"
    by (rule subseq_updateNode) (simp add: subseq_onElem)
  have d3: "distinct (allIds ?d3)"
    using D s1 s2 s3 by (blast intro: subseq_distinct)
  have s4: "subseq (allIds ?d4) (allIds ?d3)" by (rule subseq_removeNodes)
  have d4: "distinct (allIds ?d4)" using d3 s4 by (rule subseq_distinct [rotated])
  have fresh: "\<forall>x \<in> set (allIds ?d4). x < new"
    using subseq_set [OF s4] subseq_set [OF s3] subseq_set [OF s2] N by blast
  have "distinct (allIds (insertAfter i ?new ?d4))"
  proof (rule distinct_insertAfter [OF d4])
    show "distinct (allIds [?new])" by (simp add: allIds_indicatorNode)
    show "set (allIds [?new]) \<inter> set (allIds ?d4) = {}"
      using fresh by (auto simp: allIds_indicatorNode)
  qed
  then show "distinct (allIds (applyFilteredText new i ft rs doc1))" unfolding eq .
qed

subsection \<open>The sweeps of restoreOriginalContent\<close>

lemma sweep_keeps_element:
  assumes L: "locate i doc = Some (as, Element e cs)" and D: "distinct (allIds doc)"
    and A: "\<forall>a \<in> set as. \<not> sel a" and E: "\<not> sel e"
  shows "locate i (forEachSelected sel removeChild doc)
           = Some (as, Element e (removeNodes (\<lambda>x. nodeId x \<in> set (querySelectorAll sel doc)) cs))"
    and "distinct (allIds (forEachSelected sel removeChild doc))"
proof -
  let ?P = "\<lambda>x. nodeId x \<in> set (querySelectorAll sel doc)"
  have eq: "forEachSelected sel removeChild doc = removeNodes ?P doc"
    by (simp add: forEachSelected_def fold_removeChild)
  have mem: "set as \<subseteq> set (allElems doc)" "e \<in> set (allElems doc)"
    using locate_sub [OF L] by auto
  have keep: "\<not> ?P a" if "a \<in> set (allElems doc)" "\<not> sel a" for a
  proof
    assume "?P a"
    then obtain x where x: "x \<in> set (allElems doc)" "sel x" "nodeId x = nodeId a"
      by (auto simp: querySelectorAll_def)
    from elems_unique [OF D x(1) that(1) x(3)] have "x = a" .
    with x(2) that(2) show False by simp
  qed
  have "\<forall>a \<in> set as. \<not> ?P a" using keep mem(1) A by blast
  moreover have "\<not> ?P e" using keep mem(2) E by blast
  ultimately show "locate i (forEachSelected sel removeChild doc)
           = Some (as, Element e (removeNodes ?P cs))"
    unfolding eq using locate_removeNodes [OF L, of ?P] by blast
  show "distinct (allIds (forEachSelected sel removeChild doc))"
    unfolding eq using subseq_removeNodes D by (rule subseq_distinct)
qed

lemma classList_restoreImageProps:
  "set (classList (restoreImageProps e)) \<subseteq> set (classList e)"
  by (auto simp: restoreImageProps_def Let_def setStyle_def classListRemove_def
      removeAttribute_def setAttribute_def split: option.splits)

lemma nodeId_restoreImageProps [simp]: "nodeId (restoreImageProps e) = nodeId e"
  by (simp add: restoreImageProps_def Let_def split: option.splits)

lemma restoredFrom_refl [simp]: "restoredFrom a a"
  by (simp add: restoredFrom_def)

lemma restoredFrom_trans: "restoredFrom a b \<Longrightarrow> restoredFrom b c \<Longrightarrow> restoredFrom a c"
  by (auto simp: restoredFrom_def)

lemma restoredFrom_restoreImageProps: "restoredFrom a (restoreImageProps a)"
  using classList_restoreImageProps [of a]
  by (auto simp: restoredFrom_def restoreImageProps_def Let_def hasClass_def [symmetric]
      split: option.splits)

lemma noClass_restoreImage:
  assumes "\<forall>x \<in> set (allElems doc). \<not> hasClass c x"
  shows "\<forall>x \<in> set (allElems (restoreImage j doc)). \<not> hasClass c x"
proof -
  let ?d1 = "updateNode j (onElem restoreImageProps) doc"
  have g: "\<forall>n. (\<forall>x \<in> set (allElems [n]). \<not> hasClass c x)
            \<longrightarrow> (\<forall>x \<in> set (allElems [onElem restoreImageProps n]). \<not> hasClass c x)"
  proof (intro allI impI)
    fix n assume h: "\<forall>x \<in> set (allElems [n]). \<not> hasClass c x"
    show "\<forall>x \<in> set (allElems [onElem restoreImageProps n]). \<not> hasClass c x"
      using h classList_restoreImageProps by (cases n) (auto simp: hasClass_def)
  qed
  have d1: "\<forall>x \<in> set (allElems ?d1). \<not> hasClass c x"
    by (rule everyElem_updateNode [OF assms g])
  have rep: "\<forall>x \<in> set (allElems (replaceNode w img ?d1)). \<not> hasClass c x"
    if "findNode j ?d1 = Some img" for w img
    using everyElem_replaceNode [OF d1, of img w] findNode_elems [OF that] d1 by blast
  show ?thesis
    using d1 rep
    by (auto simp: restoreImage_def Let_def split: option.splits prod.splits)
qed

lemma noClass_fold_restoreImage:
  "\<forall>x \<in> set (allElems doc). \<not> hasClass c x
   \<Longrightarrow> \<forall>x \<in> set (allElems (fold restoreImage js doc)). \<not> hasClass c x"
proof (induction js arbitrary: doc)
  case Nil
  then show ?case by simp
next
  case (Cons j js)
  have "\<forall>x \<in> set (allElems (restoreImage j doc)). \<not> hasClass c x"
    by (rule noClass_restoreImage [OF Cons.prems])
  then have "\<forall>x \<in> set (allElems (fold restoreImage js (restoreImage j doc))). \<not> hasClass c x"
    by (rule Cons.IH)
  then show ?case by simp
qed

lemma restoreImage_no_wrapper:
  assumes "\<forall>x \<in> set (allElems doc). \<not> hasClass ''socioio-image-wrapper'' x"
  shows "restoreImage j doc = updateNode j (onElem restoreImageProps) doc"
proof -
  let ?d1 = "updateNode j (onElem restoreImageProps) doc"
  have "\<forall>x \<in> set (allElems (restoreImage j doc)). \<not> hasClass ''socioio-image-wrapper'' x"
    by (rule noClass_restoreImage [OF assms])
  have g: "\<forall>n. (\<forall>x \<in> set (allElems [n]). \<not> hasClass ''socioio-image-wrapper'' x)
            \<longrightarrow> (\<forall>x \<in> set (allElems [onElem restoreImageProps n]).
                    \<not> hasClass ''socioio-image-wrapper'' x)"
  proof (intro allI impI)
    fix n assume h: "\<forall>x \<in> set (allElems [n]). \<not> hasClass ''socioio-image-wrapper'' x"
    show "\<forall>x \<in> set (allElems [onElem restoreImageProps n]). \<not> hasClass ''socioio-image-wrapper'' x"
      using h classList_restoreImageProps by (cases n) (auto simp: hasClass_def)
  qed
  have d1: "\<forall>x \<in> set (allElems ?d1). \<not> hasClass ''socioio-image-wrapper'' x"
    by (rule everyElem_updateNode [OF assms g])
  have "\<not> hasClass ''socioio-image-wrapper'' p" if "parentOf j ?d1 = Some p" for p
    using parentOf_elem [OF that] d1 by blast
  then show ?thesis
    by (auto simp: restoreImage_def Let_def split: option.splits)
qed

lemma image_sweep:
  assumes "\<forall>x \<in> set (allElems doc). \<not> hasClass ''socioio-image-wrapper'' x"
    and "locate i doc = Some (as, Element e (textChildren ft))"
  shows "\<exists>as' e'. locate i (fold restoreImage js doc) = Some (as', Element e' (textChildren ft))
           \<and> restoredFrom e e' \<and> list_all2 restoredFrom as as'
           \<and> allIds (fold restoreImage js doc) = allIds doc"
  using assms
proof (induction js arbitrary: doc as e)
  case Nil
  then show ?case by (auto simp: list_all2_same)
next
  case (Cons j js)
  let ?d1 = "updateNode j (onElem restoreImageProps) doc"
  have r: "restoreImage j doc = ?d1" by (rule restoreImage_no_wrapper [OF Cons(2)])
  have w: "\<forall>x \<in> set (allElems ?d1). \<not> hasClass ''socioio-image-wrapper'' x"
    using noClass_restoreImage [OF Cons(2), of j] r by simp
  have F: "\<forall>x. nodeId (restoreImageProps x) = nodeId x" by simp
  from locate_updateNode_onElem [OF Cons(3) _ F, of j]
  obtain as1 e1 where l1: "locate i ?d1 = Some (as1, Element e1 (textChildren ft))"
    and e1: "e1 = e \<or> e1 = restoreImageProps e"
    and a1: "list_all2 (\<lambda>a a'. a' = a \<or> a' = restoreImageProps a) as as1"
    by auto
  have re1: "restoredFrom e e1" using e1 restoredFrom_restoreImageProps by auto
  have ra1: "list_all2 restoredFrom as as1"
    using a1 by (rule list_all2_mono) (auto simp: restoredFrom_restoreImageProps)
  from Cons(1) [OF w l1]
  obtain as' e' where l: "locate i (fold restoreImage js ?d1) = Some (as', Element e' (textChildren ft))"
    and re: "restoredFrom e1 e'" and ra: "list_all2 restoredFrom as1 as'"
    and ids: "allIds (fold restoreImage js ?d1) = allIds ?d1" by blast
  have "list_all2 restoredFrom as as'"
    using list_all2_trans [OF _ ra1 ra] restoredFrom_trans by blast
  moreover have "restoredFrom e e'" using re1 re by (rule restoredFrom_trans)
  moreover have "allIds (fold restoreImage js ?d1) = allIds doc"
    using ids by (simp add: allIds_updateNode_onElem [OF F])
  ultimately show ?case using l r by simp
qed

lemma not_selected:
  assumes "distinct (allIds doc)" and "a \<in> set (allElems doc)" and "\<not> sel a"
  shows "nodeId a \<notin> set (querySelectorAll sel doc)"
proof
  assume "nodeId a \<in> set (querySelectorAll sel doc)"
  then obtain x where x: "x \<in> set (allElems doc)" "sel x" "nodeId x = nodeId a"
    by (auto simp: querySelectorAll_def)
  from elems_unique [OF assms(1) x(1) assms(2) x(3)] have "x = a" .
  with x(2) assms(3) show False by simp
qed

lemma selected:
  "a \<in> set (allElems doc) \<Longrightarrow> sel a \<Longrightarrow> nodeId a \<in> set (querySelectorAll sel doc)"
  by (auto simp: querySelectorAll_def)

lemma updateNode_no_elems: "allIds cs = [] \<Longrightarrow> updateNode j g cs = cs"
  by (induction j g cs rule: updateNode.induct) auto

lemma removeNodes_no_elems: "allIds cs = [] \<Longrightarrow> removeNodes P cs = cs"
  by (induction P cs rule: removeNodes.induct) auto

lemma restoreTextNode_cases:
  "\<exists>e' cs'. restoreTextNode (Element e cs) = Element e' cs' \<and> nodeId e' = nodeId e
      \<and> (cs' = cs \<or> (\<exists>v. cs' = [TextNode v]))
      \<and> set (classList e') \<subseteq> set (classList e)"
  by (auto simp: Let_def classListRemove_def removeAttribute_def split: option.splits)

lemma subseq_restoreTextNode: "subseq (allIds [restoreTextNode n]) (allIds [n])"
proof (cases n)
  case (Element e cs)
  from restoreTextNode_cases [of e cs] obtain e' cs' where
    r: "restoreTextNode (Element e cs) = Element e' cs'" "nodeId e' = nodeId e"
       "cs' = cs \<or> (\<exists>v. cs' = [TextNode v])" by blast
  then show ?thesis using Element by auto
next
  case (TextNode t)
  then show ?thesis by simp
qed

lemma restoreTextNode_idem: "restoreTextNode (restoreTextNode n) = restoreTextNode n"
proof (cases n)
  case (Element e cs)
  show ?thesis
  proof (cases "getAttribute ''data-original-text'' e")
    case None
    then show ?thesis using Element
      by (simp add: Let_def getAttribute_def classListRemove_def)
  next
    case (Some v)
    then show ?thesis using Element
      by (cases "v = []")
         (simp_all add: Let_def getAttribute_def classListRemove_def removeAttribute_def
            map_of_assocDel_same)
  qed
next
  case (TextNode t)
  then show ?thesis by simp
qed

lemma text_sweep:
  assumes "locate i doc = Some (as, Element e cs)" and "allIds cs = []"
    and "\<forall>a \<in> set as. nodeId a \<notin> set js"
  shows "locate i (fold (\<lambda>j. updateNode j restoreTextNode) js doc)
           = Some (as, if i \<in> set js then restoreTextNode (Element e cs) else Element e cs)"
  using assms
proof (induction js arbitrary: doc e cs)
  case Nil
  then show ?case by simp
next
  case (Cons j js)
  have idn: "nodeId e = i" using locate_sub [OF Cons(2)] by simp
  have A: "\<forall>a \<in> set as. nodeId a \<notin> set js" "j \<notin> nodeId ` set as" using Cons(4) by auto
  show ?case
  proof (cases "j = i")
    case True
    from restoreTextNode_cases [of e cs] obtain e' cs' where
      r: "restoreTextNode (Element e cs) = Element e' cs'" "nodeId e' = nodeId e"
         "cs' = cs \<or> (\<exists>v. cs' = [TextNode v])" by blast
    have c': "allIds cs' = []" using r(3) Cons(3) by auto
    have "locate i (updateNode i restoreTextNode doc) = Some (as, Element e' cs')"
      using locate_updateNode_same [OF Cons(2), of restoreTextNode] r idn by simp
    from Cons(1) [OF this c' A(1)]
    have "locate i (fold (\<lambda>j. updateNode j restoreTextNode) js (updateNode i restoreTextNode doc))
            = Some (as, restoreTextNode (Element e cs))"
      using r(1) restoreTextNode_idem [of "Element e cs"] by (auto split: if_splits)
    then show ?thesis using True by simp
  next
    case False
    have fixed: "updateNode j restoreTextNode [Element e cs] = [Element e cs]"
      using False idn Cons(3) by (simp add: updateNode_no_elems)
    have "locate i (updateNode j restoreTextNode doc) = Some (as, Element e cs)"
      by (rule locate_updateNode_other [OF Cons(2) fixed False A(2)])
         (simp add: subseq_restoreTextNode)
    from Cons(1) [OF this Cons(3) A(1)] show ?thesis using False by simp
  qed
qed

lemma subseq_text_sweep:
  "subseq (allIds (fold (\<lambda>j. updateNode j restoreTextNode) js doc)) (allIds doc)"
proof (induction js arbitrary: doc)
  case Nil
  then show ?case by simp
next
  case (Cons j js)
  have "subseq (allIds (updateNode j restoreTextNode doc)) (allIds doc)"
    by (rule subseq_updateNode) (simp add: subseq_restoreTextNode)
  with Cons [of "updateNode j restoreTextNode doc"] show ?case
    by (auto intro: subseq_order.trans)
qed

lemma noClass_text_sweep:
  "\<forall>x \<in> set (allElems doc). \<not> hasClass c x
   \<Longrightarrow> \<forall>x \<in> set (allElems (fold (\<lambda>j. updateNode j restoreTextNode) js doc)). \<not> hasClass c x"
proof (induction js arbitrary: doc)
  case Nil
  then show ?case by simp
next
  case (Cons j js)
  have g: "\<forall>n. (\<forall>x \<in> set (allElems [n]). \<not> hasClass c x)
            \<longrightarrow> (\<forall>x \<in> set (allElems [restoreTextNode n]). \<not> hasClass c x)"
  proof (intro allI impI)
    fix n assume h: "\<forall>x \<in> set (allElems [n]). \<not> hasClass c x"
    show "\<forall>x \<in> set (allElems [restoreTextNode n]). \<not> hasClass c x"
    proof (cases n)
      case (Element e cs)
      from restoreTextNode_cases [of e cs] obtain e' cs' where
        r: "restoreTextNode (Element e cs) = Element e' cs'"
           "cs' = cs \<or> (\<exists>v. cs' = [TextNode v])" "set (classList e') \<subseteq> set (classList e)"
        by blast
      then show ?thesis using h Element by (auto simp: hasClass_def)
    next
      case (TextNode t)
      then show ?thesis by simp
    qed
  qed
  have "\<forall>x \<in> set (allElems (updateNode j restoreTextNode doc)). \<not> hasClass c x"
    by (rule everyElem_updateNode [OF Cons.prems g])
  then have "\<forall>x \<in> set (allElems (fold (\<lambda>j. updateNode j restoreTextNode) js
                 (updateNode j restoreTextNode doc))). \<not> hasClass c x"
    by (rule Cons.IH)
  then show ?case by simp
qed

lemma restore_removes_markers:
  "\<forall>x \<in> set (allElems (restoreOriginalContent doc)).
     \<not> hasClass INDICATOR_CLASS x \<and> \<not> hasClass ''socioio-overlay'' x"
proof -
  let ?d1 = "forEachSelected isPipelineNode removeChild doc"
  let ?d2 = "forEachSelected isBlurredImage restoreImage ?d1"
  let ?d3 = "forEachSelected (hasClass ''socioio-filtered-text'') (\<lambda>i. updateNode i restoreTextNode) ?d2"
  let ?d4 = "forEachSelected (hasClass ''socioio-overlay'') removeChild ?d3"
  have 1: "\<forall>x \<in> set (allElems ?d1). \<not> hasClass INDICATOR_CLASS x"
    using removed_by_selector [of isPipelineNode doc] by (auto simp: isPipelineNode_def)
  have 2: "\<forall>x \<in> set (allElems ?d2). \<not> hasClass INDICATOR_CLASS x"
    unfolding forEachSelected_def [of isBlurredImage]
    by (rule noClass_fold_restoreImage [OF 1])
  have 3: "\<forall>x \<in> set (allElems ?d3). \<not> hasClass INDICATOR_CLASS x"
    unfolding forEachSelected_def [of "hasClass ''socioio-filtered-text''"]
    by (rule noClass_text_sweep [OF 2])
  have 4: "\<forall>x \<in> set (allElems ?d4). \<not> hasClass INDICATOR_CLASS x"
    using 3 kept_by_selector [of "hasClass ''socioio-overlay''" ?d3] by blast
  have 5: "\<forall>x \<in> set (allElems ?d4). \<not> hasClass ''socioio-overlay'' x"
    by (rule removed_by_selector)
  have "restoreOriginalContent doc = ?d4" by (simp add: restoreOriginalContent_def Let_def)
  then show ?thesis using 4 5 by simp
qed

lemma filtered_document:
  assumes "findNode i (document s) = Some (Element e ks)"
    and "5 \<le> length (trim (textOf ks))"
    and "snd (processTextElement i outcome s) = Filtered act rs"
  shows "\<exists>new ft rs'. document (fst (processTextElement i outcome s))
           = applyFilteredText new i ft rs'
               (updateNode i (onElem (setAttribute ''data-original-text'' (trim (textOf ks))))
                  (document s))
         \<and> (\<forall>x \<in> set (allIds (updateNode i
                  (onElem (setAttribute ''data-original-text'' (trim (textOf ks)))) (document s))).
               x < new)"
proof -
  let ?doc1 = "updateNode i (onElem (setAttribute ''data-original-text'' (trim (textOf ks))))
                 (document s)"
  let ?s1 = "s\<lparr>document := ?doc1\<rparr>"
  have n: "\<forall>x \<in> set (allIds ?doc1). x < newNodeId ?s1"
  proof
    fix x assume "x \<in> set (allIds ?doc1)"
    then have "x < freshId ?doc1" by (rule lt_freshId)
    then show "x < newNodeId ?s1" by (simp add: newNodeId_def)
  qed
  have "\<exists>ft rs'. document (fst (processTextElement i outcome s))
           = applyFilteredText (newNodeId ?s1) i ft rs' ?doc1"
    using assms(3)
    unfolding processTextElement_def processTextElement_start_long [OF assms(1,2)]
    by (auto simp: processTextElement_resume_def filterElement_def Let_def
        split: fetch_outcome.splits if_splits)
  then show ?thesis using n by blast
qed

lemma isPlain_restoredFrom: "restoredFrom a b \<Longrightarrow> isPlain a \<Longrightarrow> isPlain b"
  by (auto simp: restoredFrom_def isPlain_def isPipelineNode_def hasClass_def)

lemma list_all2_right: "list_all2 R xs ys \<Longrightarrow> y \<in> set ys \<Longrightarrow> \<exists>x \<in> set xs. R x y"
  by (induction rule: list_all2_induct) auto

text \<open>
  Claim C6, amended. Take a connected text element of a page whose elements are distinct
  objects, with at least five characters of trimmed text, that \<open>processTextElement\<close>
  filtered; the element and its ancestors carry none of the classes the restore sweeps
  remove, and no ancestor is itself a filtered text element. After
  \<open>restoreOriginalContent\<close> the element is still on the page, its content is one text node
  holding the text saved at filter time, which is the original text content with leading
  and trailing white space trimmed; the filter mark and the saved copy are gone; and no
  indicator node and no overlay node is left anywhere on the page.
\<close>

theorem restore_returns_saved_text:
  assumes D: "distinct (allIds (document s))"
    and L: "locate i (document s) = Some (as, Element e ks)"
    and T: "5 \<le> length (trim (textOf ks))"
    and F: "snd (processTextElement i outcome s) = Filtered act rs"
    and P: "isPlain e" "list_all (\<lambda>a. isPlain a \<and> \<not> hasClass ''socioio-filtered-text'' a) as"
  shows "(\<exists>e'. findNode i (restoreOriginalContent (document (fst (processTextElement i outcome s))))
                 = Some (Element e' [TextNode (trim (textOf ks))])
               \<and> \<not> hasClass ''socioio-filtered-text'' e'
               \<and> getAttribute ''data-original-text'' e' = None)
         \<and> (\<forall>x \<in> set (allElems (restoreOriginalContent
                                     (document (fst (processTextElement i outcome s))))).
               \<not> hasClass INDICATOR_CLASS x \<and> \<not> hasClass ''socioio-overlay'' x)"
proof -
  let ?t = "trim (textOf ks)"
  let ?orig = "''data-original-text''"
  let ?ft = "''socioio-filtered-text''"
  have tne: "?t \<noteq> []" using T by auto
  have fnd: "findNode i (document s) = Some (Element e ks)"
    using L by (simp add: findNode_locate)
  from filtered_document [OF fnd T F] obtain new ft rs' where
    doc: "document (fst (processTextElement i outcome s))
           = applyFilteredText new i ft rs'
               (updateNode i (onElem (setAttribute ?orig ?t)) (document s))"
    and N: "\<forall>x \<in> set (allIds (updateNode i (onElem (setAttribute ?orig ?t)) (document s))).
              x < new"
    by blast
  let ?d5 = "document (fst (processTextElement i outcome s))"
  let ?e3 = "classListAdd ?ft (setAttribute ?orig ?t e)"
  have A0: "\<forall>a \<in> set as. isPlain a \<and> \<not> hasClass ?ft a" using P(2) by (simp add: list_all_iff)
  have A1: "\<forall>a \<in> set as. \<not> hasClass INDICATOR_CLASS a"
    using A0 by (auto simp: isPlain_def isPipelineNode_def)
  have E1: "\<not> hasClass INDICATOR_CLASS e" using P(1) by (auto simp: isPlain_def isPipelineNode_def)
  have l5: "locate i ?d5 = Some (as, Element ?e3 (textChildren ft))"
    and d5: "distinct (allIds ?d5)"
    unfolding doc by (rule filtered_page [OF L D A1 E1 N])+
  have plain3: "isPlain ?e3"
    using P(1) by (simp add: isPlain_def isPipelineNode_def INDICATOR_CLASS_def)
  have attr3: "getAttribute ?orig ?e3 = Some ?t" by simp
  have cls3: "hasClass ?ft ?e3" by simp
  \<comment> \<open>first sweep: pipeline nodes are removed\<close>
  let ?d6 = "forEachSelected isPipelineNode removeChild ?d5"
  have l6: "locate i ?d6 = Some (as, Element ?e3 (textChildren ft))"
    using sweep_keeps_element(1) [OF l5 d5, of isPipelineNode] A0 plain3
    by (simp add: isPlain_def)
  have d6: "distinct (allIds ?d6)"
    using sweep_keeps_element(2) [OF l5 d5, of isPipelineNode] A0 plain3
    by (simp add: isPlain_def)
  have w6: "\<forall>x \<in> set (allElems ?d6). \<not> hasClass ''socioio-image-wrapper'' x"
    using removed_by_selector [of isPipelineNode ?d5] by (auto simp: isPipelineNode_def)
  \<comment> \<open>second sweep: images\<close>
  let ?d7 = "forEachSelected isBlurredImage restoreImage ?d6"
  from image_sweep [OF w6 l6, of "querySelectorAll isBlurredImage ?d6"]
  obtain as7 e7 where l7: "locate i ?d7 = Some (as7, Element e7 (textChildren ft))"
    and r7: "restoredFrom ?e3 e7" and ra7: "list_all2 restoredFrom as as7"
    and ids7: "allIds ?d7 = allIds ?d6"
    unfolding forEachSelected_def [of isBlurredImage] by blast
  have d7: "distinct (allIds ?d7)" using d6 ids7 by simp
  have attr7: "getAttribute ?orig e7 = Some ?t" using r7 attr3 by (simp add: restoredFrom_def)
  have cls7: "hasClass ?ft e7" using r7 cls3 by (simp add: restoredFrom_def)
  have plain7: "isPlain e7" using r7 plain3 by (rule isPlain_restoredFrom)
  have A7: "\<forall>a \<in> set as7. isPlain a \<and> \<not> hasClass ?ft a"
  proof
    fix b assume "b \<in> set as7"
    then obtain a where a: "a \<in> set as" "restoredFrom a b"
      using list_all2_right [OF ra7] by blast
    then show "isPlain b \<and> \<not> hasClass ?ft b"
      using A0 isPlain_restoredFrom [OF a(2)] by (auto simp: restoredFrom_def)
  qed
  have mem7: "set as7 \<subseteq> set (allElems ?d7)" "e7 \<in> set (allElems ?d7)" "nodeId e7 = i"
    using locate_sub [OF l7] by auto
  \<comment> \<open>third sweep: filtered text\<close>
  let ?js = "querySelectorAll (hasClass ?ft) ?d7"
  let ?d8 = "forEachSelected (hasClass ?ft) (\<lambda>i. updateNode i restoreTextNode) ?d7"
  have anc: "\<forall>a \<in> set as7. nodeId a \<notin> set ?js"
    using not_selected [OF d7, of _ "hasClass ?ft"] mem7(1) A7 by blast
  have isel: "i \<in> set ?js"
    using selected [OF mem7(2), of "hasClass ?ft"] cls7 mem7(3) by simp
  let ?e8 = "(classListRemove ?ft (removeAttribute ?orig e7))\<lparr>style := []\<rparr>"
  have rt: "restoreTextNode (Element e7 (textChildren ft)) = Element ?e8 [TextNode ?t]"
    using attr7 tne by (simp add: Let_def)
  have l8: "locate i ?d8 = Some (as7, Element ?e8 [TextNode ?t])"
    unfolding forEachSelected_def [of "hasClass ?ft"]
    using text_sweep [OF l7 _ anc] isel rt by simp
  have d8: "distinct (allIds ?d8)"
    unfolding forEachSelected_def [of "hasClass ?ft"]
    using subseq_text_sweep d7 by (rule subseq_distinct)
  have plain8: "\<not> hasClass ''socioio-overlay'' ?e8"
    using plain7 by (simp add: isPlain_def hasClass_def classListRemove_def removeAttribute_def)
  \<comment> \<open>fourth sweep: overlays\<close>
  let ?d9 = "forEachSelected (hasClass ''socioio-overlay'') removeChild ?d8"
  have l9: "locate i ?d9 = Some (as7, Element ?e8 [TextNode ?t])"
    using sweep_keeps_element(1) [OF l8 d8, of "hasClass ''socioio-overlay''"] A7 plain8
    by (simp add: isPlain_def)
  have r: "restoreOriginalContent ?d5 = ?d9" by (simp add: restoreOriginalContent_def Let_def)
  have "findNode i (restoreOriginalContent ?d5) = Some (Element ?e8 [TextNode ?t])"
    unfolding r using l9 by (simp add: findNode_locate)
  moreover have "\<not> hasClass ?ft ?e8" by (simp add: hasClass_def classListRemove_def)
  moreover have "getAttribute ?orig ?e8 = None"
    by (simp add: getAttribute_def classListRemove_def removeAttribute_def map_of_assocDel_same)
  ultimately show ?thesis using restore_removes_markers [of ?d5] by blast
qed

lemma filtered_padded:
  "processTextElement 1 (Response removeVerdict) (initialState paddedPage)
     = ((initialState paddedPage)
          \<lparr>document :=
             [Element (classListAdd ''socioio-filtered-text''
                         (setAttribute ''data-original-text'' ''hello world''
                            (blankElem 1 ''P'' (0, 0))))
                [TextNode ''[Content filtered]''],
              indicatorNode 2 (0, 0) ''remove'' [''Profanity'']],
            nextNodeId := 5\<rparr>,
        Filtered ''remove'' [''Profanity''])"
  by (simp add: processTextElement_def processTextElement_start_def processTextElement_resume_def
      initialState_def paddedPage_def samplePage_def trim_hello_world removeVerdict_def
      filterElement_def newNodeId_def
      applyFilteredText_def addModerationIndicator_def filteredTextFor_def rectOf_def
      freshId_def blankElem_def setAttribute_def classListAdd_def hasClass_def
      INDICATOR_CLASS_def near_def Let_def numeral_2_eq_2)

lemma restored_padded:
  "restoreOriginalContent
     [Element (classListAdd ''socioio-filtered-text''
                 (setAttribute ''data-original-text'' ''hello world'' (blankElem 1 ''P'' (0, 0))))
        [TextNode ''[Content filtered]''],
      indicatorNode 2 (0, 0) ''remove'' [''Profanity'']]
   = [Element (blankElem 1 ''P'' (0, 0)) [TextNode ''hello world'']]"
  by (simp add: restoreOriginalContent_def forEachSelected_def querySelectorAll_def
      isPipelineNode_def isBlurredImage_def hasClass_def removeChild_def indicatorNode_def
      blankElem_def setAttribute_def classListAdd_def classListRemove_def removeAttribute_def
      getAttribute_def assocDel_def INDICATOR_CLASS_def Let_def numeral_2_eq_2)

lemma filtered_padded_document:
  "document (fst (processTextElement 1 (Response removeVerdict) (initialState paddedPage)))
     = [Element (classListAdd ''socioio-filtered-text''
                   (setAttribute ''data-original-text'' ''hello world'' (blankElem 1 ''P'' (0, 0))))
          [TextNode ''[Content filtered]''],
        indicatorNode 2 (0, 0) ''remove'' [''Profanity'']]"
  unfolding filtered_padded by simp

text \<open>
  Claim C6 as stated fails. A paragraph whose text content starts and ends with white
  space is filtered and the page is restored: the paragraph then holds the trimmed text,
  which is not the content it had before it was filtered.
\<close>

theorem restore_trims_original_text:
  "map_option textContent (findNode 1 paddedPage) = Some ''  hello world ''
   \<and> snd (processTextElement 1 (Response removeVerdict) (initialState paddedPage))
       = Filtered ''remove'' [''Profanity'']
   \<and> map_option textContent
        (findNode 1 (restoreOriginalContent
           (document (fst (processTextElement 1 (Response removeVerdict) (initialState paddedPage))))))
       = Some ''hello world''"
  unfolding filtered_padded_document restored_padded
  unfolding filtered_padded
  by (simp add: paddedPage_def samplePage_def blankElem_def)

theorem restore_returns_saved_text_witness:
  "distinct (allIds (document (initialState paddedPage)))
   \<and> locate 1 (document (initialState paddedPage))
       = Some ([], Element (blankElem 1 ''P'' (0, 0)) [TextNode ''  hello world ''])
   \<and> 5 \<le> length (trim (textOf [TextNode ''  hello world '']))
   \<and> isPlain (blankElem 1 ''P'' (0, 0))
   \<and> (\<exists>e'. findNode 1 (restoreOriginalContent
                 (document (fst (processTextElement 1 (Response removeVerdict)
                                   (initialState paddedPage)))))
              = Some (Element e' [TextNode ''hello world'']))"
proof -
  let ?s = "initialState paddedPage"
  have d: "distinct (allIds (document ?s))"
    by (simp add: initialState_def paddedPage_def samplePage_def blankElem_def)
  have l: "locate 1 (document ?s)
       = Some ([], Element (blankElem 1 ''P'' (0, 0)) [TextNode ''  hello world ''])"
    by (simp add: initialState_def paddedPage_def samplePage_def blankElem_def)
  have t: "5 \<le> length (trim (textOf [TextNode ''  hello world '']))"
    by (simp add: trim_hello_world)
  have f: "snd (processTextElement 1 (Response removeVerdict) ?s) = Filtered ''remove'' [''Profanity'']"
    unfolding filtered_padded by simp
  have p: "isPlain (blankElem 1 ''P'' (0, 0))"
    by (simp add: isPlain_def isPipelineNode_def hasClass_def blankElem_def)
  have q: "list_all (\<lambda>a. isPlain a \<and> \<not> hasClass ''socioio-filtered-text'' a) []" by simp
  from restore_returns_saved_text [OF d l t f p q]
  have "\<exists>e'. findNode 1 (restoreOriginalContent
                 (document (fst (processTextElement 1 (Response removeVerdict) ?s))))
              = Some (Element e' [TextNode (trim (textOf [TextNode ''  hello world '']))])"
    by blast
  then have "\<exists>e'. findNode 1 (restoreOriginalContent
                 (document (fst (processTextElement 1 (Response removeVerdict) ?s))))
              = Some (Element e' [TextNode ''hello world''])"
    by (simp only: textOf.simps append_Nil2 trim_hello_world)
  then show ?thesis using d l t p by blast
qed

subsection \<open>A filtered image\<close>

text \<open>The first sweep removes every wrapper together with what it holds, so an image
  that was wrapped when it was filtered is no longer on the page after the restore; the
  unwrapping in the second sweep never finds it.\<close>

lemma restore_drops_wrapped_image:
  "isConnected 2 wrappedImagePage \<and> \<not> isConnected 2 (restoreOriginalContent wrappedImagePage)"
  by (simp add: wrappedImagePage_def isConnected_def restoreOriginalContent_def
      forEachSelected_def querySelectorAll_def isPipelineNode_def isBlurredImage_def hasClass_def
      removeChild_def blankElem_def INDICATOR_CLASS_def Let_def)

end
